theory Spec2Isabelle
  imports Complex_Main
begin

section \<open>Adaptive SIR simulation (asir\_core.py): data model\<close>

text \<open>
  Nodes are natural numbers. The three compartments are the class constants
  \<^verbatim>\<open>SUSCEPTIBLE = 0\<close>, \<^verbatim>\<open>INFECTED = 1\<close>, \<^verbatim>\<open>RECOVERED = 2\<close>.
  Probabilities and random draws are Python floats; they are modelled as reals, and the
  only operations on them are the comparisons \<^verbatim>\<open>random.random() < p\<close> and
  the expression \<^verbatim>\<open>1 - (1 - beta) ** k_I\<close>.
\<close>

datatype cstate = SUSCEPTIBLE | INFECTED | RECOVERED

datatype error = KeyError | ZeroDivisionError | IndexError | NetworkXError | ValueError

type_synonym node = nat
type_synonym edge = "node \<times> node"

text \<open>
  A networkx \<^verbatim>\<open>Graph\<close> keeps an insertion-ordered dictionary from each node to the
  insertion-ordered dictionary of its neighbours. It is modelled as an association list
  from nodes to neighbour lists, in insertion order.
\<close>

type_synonym graph = "(node \<times> node list) list"

type_synonym states = "node \<rightharpoonup> cstate"

record time_series_rec =
  ts_S :: "nat list"
  ts_I :: "nat list"
  ts_R :: "nat list"
  ts_t :: "nat list"

record network_metrics_rec =
  avg_degree :: "real list"
  clustering :: "real list"
  num_edges :: "nat list"
  num_components :: "nat list"

record metrics =
  m_avg_degree :: real
  m_clustering :: real
  m_num_edges :: nat
  m_num_components :: nat

record sim =
  G :: graph
  beta :: real
  gamma :: real
  alpha :: real
  mu :: real
  N :: nat
  state :: states
  time_series :: time_series_rec
  network_metrics :: network_metrics_rec

text \<open>
  The environment of a run: the process-wide generator of Python's \<^verbatim>\<open>random\<close>
  module, whose state has type \<open>'r\<close>, and the iteration order of Python sets.
  \<open>random_random\<close> is \<^verbatim>\<open>random.random()\<close>, \<open>random_sample\<close> is
  \<^verbatim>\<open>random.sample(population, k)\<close>, \<open>random_choice\<close> is
  \<^verbatim>\<open>random.choice(seq)\<close> on a non-empty sequence, \<open>random_seed\<close> is the
  generator state after \<^verbatim>\<open>random.seed(seed)\<close>. A Python set is modelled by the
  list of its insertions; \<open>set_iter\<close> and \<open>edge_set_iter\<close> give the order in which
  iterating the set yields its elements.
\<close>

record 'r env =
  random_random :: "'r \<Rightarrow> real \<times> 'r"
  random_sample :: "'r \<Rightarrow> node list \<Rightarrow> nat \<Rightarrow> node list \<times> 'r"
  random_choice :: "'r \<Rightarrow> node list \<Rightarrow> node \<times> 'r"
  random_seed :: "int \<Rightarrow> 'r"
  set_iter :: "node list \<Rightarrow> node list"
  edge_set_iter :: "edge list \<Rightarrow> edge list"

section \<open>The networkx operations the simulation calls\<close>

definition nodes :: "graph \<Rightarrow> node list" where
  "nodes gr = map fst gr"

definition has_node :: "graph \<Rightarrow> node \<Rightarrow> bool" where
  "has_node gr u = (u \<in> set (nodes gr))"

definition neighbors :: "graph \<Rightarrow> node \<Rightarrow> error + node list" where
  "neighbors gr u = (case map_of gr u of None \<Rightarrow> Inl NetworkXError | Some nbrs \<Rightarrow> Inr nbrs)"

definition has_edge :: "graph \<Rightarrow> node \<Rightarrow> node \<Rightarrow> bool" where
  "has_edge gr u v = (case map_of gr u of None \<Rightarrow> False | Some nbrs \<Rightarrow> v \<in> set nbrs)"

text \<open>
  \<^verbatim>\<open>G.edges()\<close> reports each edge once: for every node in order, the neighbours that
  are not among the nodes already visited.
\<close>

fun edges_from :: "node list \<Rightarrow> graph \<Rightarrow> edge list" where
  "edges_from seen [] = []"
| "edges_from seen ((n, nbrs) # rest) =
     map (Pair n) (filter (\<lambda>nbr. nbr \<notin> set seen) nbrs) @ edges_from (n # seen) rest"

definition edges :: "graph \<Rightarrow> edge list" where
  "edges gr = edges_from [] gr"

definition number_of_nodes :: "graph \<Rightarrow> nat" where
  "number_of_nodes gr = length gr"

definition degree :: "node \<times> node list \<Rightarrow> nat" where
  "degree e = length (snd e) + (if fst e \<in> set (snd e) then 1 else 0)"

definition number_of_edges :: "graph \<Rightarrow> nat" where
  "number_of_edges gr = sum_list (map degree gr) div 2"

definition del_adj :: "graph \<Rightarrow> node \<Rightarrow> node \<Rightarrow> graph" where
  "del_adj gr u v = map (\<lambda>(n, nbrs). if n = u then (n, removeAll v nbrs) else (n, nbrs)) gr"

definition remove_edge :: "edge \<Rightarrow> graph \<Rightarrow> graph" where
  "remove_edge e gr =
     (if has_edge gr (fst e) (snd e)
      then (if fst e \<noteq> snd e then del_adj (del_adj gr (fst e) (snd e)) (snd e) (fst e)
            else del_adj gr (fst e) (snd e))
      else gr)"

definition remove_edges_from :: "graph \<Rightarrow> edge list \<Rightarrow> graph" where
  "remove_edges_from gr es = fold remove_edge es gr"

definition add_node :: "graph \<Rightarrow> node \<Rightarrow> graph" where
  "add_node gr u = (if has_node gr u then gr else gr @ [(u, [])])"

definition add_adj :: "graph \<Rightarrow> node \<Rightarrow> node \<Rightarrow> graph" where
  "add_adj gr u v =
     map (\<lambda>(n, nbrs). if n = u then (n, if v \<in> set nbrs then nbrs else nbrs @ [v])
                       else (n, nbrs)) gr"

definition add_edge :: "edge \<Rightarrow> graph \<Rightarrow> graph" where
  "add_edge e gr =
     add_adj (add_adj (add_node (add_node gr (fst e)) (snd e)) (fst e) (snd e)) (snd e) (fst e)"

definition add_edges_from :: "graph \<Rightarrow> edge list \<Rightarrow> graph" where
  "add_edges_from gr es = fold add_edge es gr"

text \<open>
  \<^verbatim>\<open>graph.copy()\<close> builds a new graph: it adds the nodes in order, then adds the pair
  \<open>(u, v)\<close> for every node \<open>u\<close> in order and every neighbour \<open>v\<close> of \<open>u\<close> in order.
  An edge is entered at both ends when it is first met, so the neighbour lists of the copy
  can be in another order than those of the original.
\<close>

definition copy_graph :: "graph \<Rightarrow> graph" where
  "copy_graph gr =
     add_edges_from (map (\<lambda>e. (fst e, [])) gr)
       (concat (map (\<lambda>e. map (Pair (fst e)) (snd e)) gr))"

text \<open>
  \<^verbatim>\<open>nx.average_clustering\<close>: the mean over all nodes of the local clustering
  coefficient; it divides by the number of nodes and so raises on the empty graph.
  \<^verbatim>\<open>nx.number_connected_components\<close>: the number of breadth-first searches
  needed to visit every node.
\<close>

definition adj_of :: "graph \<Rightarrow> node \<Rightarrow> node list" where
  "adj_of gr u = (case map_of gr u of None \<Rightarrow> [] | Some nbrs \<Rightarrow> nbrs)"

definition node_clustering :: "graph \<Rightarrow> node \<Rightarrow> real" where
  "node_clustering gr v =
     (let vs = remdups (filter (\<lambda>w. w \<noteq> v) (adj_of gr v));
          t = sum_list (map (\<lambda>w. length (filter (\<lambda>x. x \<noteq> w \<and> x \<in> set (adj_of gr w)) vs)) vs);
          d = length vs
      in if t = 0 then 0 else real t / real (d * (d - 1)))"

definition average_clustering :: "graph \<Rightarrow> error + real" where
  "average_clustering gr =
     (if length gr = 0 then Inl ZeroDivisionError
      else Inr (sum_list (map (node_clustering gr) (nodes gr)) / real (length gr)))"

definition expand :: "graph \<Rightarrow> node list \<Rightarrow> node list" where
  "expand gr seen = remdups (seen @ concat (map (adj_of gr) seen))"

definition component_of :: "graph \<Rightarrow> node \<Rightarrow> node list" where
  "component_of gr v = (expand gr ^^ length gr) [v]"

fun count_components :: "graph \<Rightarrow> node list \<Rightarrow> node list \<Rightarrow> nat" where
  "count_components gr seen [] = 0"
| "count_components gr seen (v # vs) =
     (if v \<in> set seen then count_components gr seen vs
      else 1 + count_components gr (component_of gr v @ seen) vs)"

definition number_connected_components :: "graph \<Rightarrow> nat" where
  "number_connected_components gr = count_components gr [] (nodes gr)"

section \<open>AdaptiveSIRSimulation\<close>

definition state_at :: "states \<Rightarrow> node \<Rightarrow> error + cstate" where
  "state_at st n = (case st n of None \<Rightarrow> Inl KeyError | Some c \<Rightarrow> Inr c)"

text \<open>The comprehension \<^verbatim>\<open>[n for n in ns if self.state[n] == c]\<close>.\<close>

fun select_state :: "states \<Rightarrow> cstate \<Rightarrow> node list \<Rightarrow> error + node list" where
  "select_state st c [] = Inr []"
| "select_state st c (n # ns) =
     (case state_at st n of
        Inl err \<Rightarrow> Inl err
      | Inr sn \<Rightarrow>
          (case select_state st c ns of
             Inl err \<Rightarrow> Inl err
           | Inr r \<Rightarrow> Inr (if sn = c then n # r else r)))"

definition empty_time_series :: time_series_rec where
  "empty_time_series = \<lparr>ts_S = [], ts_I = [], ts_R = [], ts_t = []\<rparr>"

definition empty_network_metrics :: network_metrics_rec where
  "empty_network_metrics =
     \<lparr>avg_degree = [], clustering = [], num_edges = [], num_components = []\<rparr>"

text \<open>
  \<^verbatim>\<open>__init__\<close>. \<open>new_sim\<close> is the object it builds: a copy of the graph, the four
  parameters as given, \<open>N\<close> the node count of the graph passed in, every node of the
  copy susceptible, empty series. \<open>init\<close> is the whole constructor, with the seeding
  between these assignments: when a seed is given, \<^verbatim>\<open>random.seed(seed)\<close> sets the
  process-wide generator, and then \<^verbatim>\<open>np.random.seed(seed)\<close> raises
  \<^verbatim>\<open>ValueError\<close> unless \<open>0 \<le> seed < 2^32\<close>. It returns the object or the error,
  and the state of the process-wide generator in both cases. The generator of numpy is
  never drawn from and is left out.
\<close>

definition new_sim :: "graph \<Rightarrow> real \<Rightarrow> real \<Rightarrow> real \<Rightarrow> real \<Rightarrow> sim" where
  "new_sim graph b ga a m =
     \<lparr>G = copy_graph graph, beta = b, gamma = ga, alpha = a, mu = m,
      N = length (nodes graph),
      state = (\<lambda>n. if n \<in> set (nodes (copy_graph graph)) then Some SUSCEPTIBLE else None),
      time_series = empty_time_series,
      network_metrics = empty_network_metrics\<rparr>"

definition init ::
  "'r env \<Rightarrow> graph \<Rightarrow> real \<Rightarrow> real \<Rightarrow> real \<Rightarrow> real \<Rightarrow> int option \<Rightarrow> 'r
     \<Rightarrow> (error + sim) \<times> 'r" where
  "init e graph b ga a m seed g =
     (case seed of
        None \<Rightarrow> (Inr (new_sim graph b ga a m), g)
      | Some sd \<Rightarrow>
          (if sd < 0 \<or> 2 ^ 32 \<le> sd then Inl ValueError else Inr (new_sim graph b ga a m),
           random_seed e sd))"

text \<open>
  Patient zero: the assignment \<^verbatim>\<open>self.state[patient_zero] = self.INFECTED\<close>, and
  \<^verbatim>\<open>infect_random_node\<close>, which draws the node with \<^verbatim>\<open>random.choice\<close> (an
  \<^verbatim>\<open>IndexError\<close> on a graph without nodes).
\<close>

definition infect_node :: "node \<Rightarrow> sim \<Rightarrow> sim" where
  "infect_node patient_zero s = s\<lparr>state := (state s)(patient_zero \<mapsto> INFECTED)\<rparr>"

definition infect_random_node :: "'r env \<Rightarrow> 'r \<Rightarrow> sim \<Rightarrow> error + (node \<times> sim \<times> 'r)" where
  "infect_random_node e g s =
     (if nodes (G s) = [] then Inl IndexError
      else Inr (fst (random_choice e g (nodes (G s))),
                infect_node (fst (random_choice e g (nodes (G s)))) s,
                snd (random_choice e g (nodes (G s)))))"

fun count_loop :: "states \<Rightarrow> node list \<Rightarrow> nat \<times> nat \<times> nat \<Rightarrow> error + (nat \<times> nat \<times> nat)" where
  "count_loop st [] c = Inr c"
| "count_loop st (n # ns) c =
     (case state_at st n of
        Inl err \<Rightarrow> Inl err
      | Inr SUSCEPTIBLE \<Rightarrow> count_loop st ns (fst c + 1, fst (snd c), snd (snd c))
      | Inr INFECTED \<Rightarrow> count_loop st ns (fst c, fst (snd c) + 1, snd (snd c))
      | Inr RECOVERED \<Rightarrow> count_loop st ns (fst c, fst (snd c), snd (snd c) + 1))"

definition count_states :: "sim \<Rightarrow> error + (nat \<times> nat \<times> nat)" where
  "count_states s = count_loop (state s) (nodes (G s)) (0, 0, 0)"

definition compute_network_metrics :: "sim \<Rightarrow> error + metrics" where
  "compute_network_metrics s =
     (case (if number_of_edges (G s) > 0
            then (if number_of_nodes (G s) = 0 then Inl ZeroDivisionError
                  else Inr (2 * real (number_of_edges (G s)) / real (number_of_nodes (G s))))
            else Inr 0) of
        Inl err \<Rightarrow> Inl err
      | Inr ad \<Rightarrow>
          Inr \<lparr>m_avg_degree = ad,
               m_clustering = (case average_clustering (G s) of Inl err \<Rightarrow> 0 | Inr c \<Rightarrow> c),
               m_num_edges = number_of_edges (G s),
               m_num_components = number_connected_components (G s)\<rparr>)"

subsection \<open>adaptive\_step\<close>

text \<open>Rule 1: one draw for every edge with one susceptible and one infected endpoint.\<close>

fun rule1_loop :: "'r env \<Rightarrow> states \<Rightarrow> real \<Rightarrow> edge list \<Rightarrow> 'r \<Rightarrow> error + (edge list \<times> 'r)" where
  "rule1_loop e st a [] g = Inr ([], g)"
| "rule1_loop e st a (uv # es) g =
     (case state_at st (fst uv) of
        Inl err \<Rightarrow> Inl err
      | Inr su \<Rightarrow>
          (case state_at st (snd uv) of
             Inl err \<Rightarrow> Inl err
           | Inr sv \<Rightarrow>
               (if (su = SUSCEPTIBLE \<and> sv = INFECTED) \<or> (sv = SUSCEPTIBLE \<and> su = INFECTED)
                then (case rule1_loop e st a es (snd (random_random e g)) of
                        Inl err \<Rightarrow> Inl err
                      | Inr (r, g') \<Rightarrow>
                          Inr (if fst (random_random e g) < a then uv # r else r, g'))
                else rule1_loop e st a es g)))"

text \<open>The insertions into \<^verbatim>\<open>nodes_to_check\<close> made from the removed edges.\<close>

fun check_loop :: "states \<Rightarrow> edge list \<Rightarrow> error + node list" where
  "check_loop st [] = Inr []"
| "check_loop st (uv # es) =
     (case state_at st (fst uv) of
        Inl err \<Rightarrow> Inl err
      | Inr su \<Rightarrow>
          (case state_at st (snd uv) of
             Inl err \<Rightarrow> Inl err
           | Inr sv \<Rightarrow>
               (case check_loop st es of
                  Inl err \<Rightarrow> Inl err
                | Inr r \<Rightarrow>
                    Inr ((if su = SUSCEPTIBLE then [fst uv] else []) @
                         (if sv = SUSCEPTIBLE then [snd uv] else []) @ r))))"

text \<open>
  The three nested loops of Rule 2. Each returns the edges it appends to
  \<^verbatim>\<open>edges_to_add\<close>, in order. The \<^verbatim>\<open>break\<close> after an append leaves the loop
  over \<open>w\<close> only.
\<close>

fun scan_w ::
  "'r env \<Rightarrow> states \<Rightarrow> graph \<Rightarrow> real \<Rightarrow> node \<Rightarrow> node list \<Rightarrow> 'r \<Rightarrow> error + (edge list \<times> 'r)" where
  "scan_w e st gr m u [] g = Inr ([], g)"
| "scan_w e st gr m u (w # ws) g =
     (if w = u then scan_w e st gr m u ws g
      else (case state_at st w of
              Inl err \<Rightarrow> Inl err
            | Inr sw \<Rightarrow>
                (if sw \<noteq> SUSCEPTIBLE \<or> has_edge gr u w then scan_w e st gr m u ws g
                 else if fst (random_random e g) < m
                      then Inr ([(u, w)], snd (random_random e g))
                      else scan_w e st gr m u ws (snd (random_random e g)))))"

fun scan_v ::
  "'r env \<Rightarrow> states \<Rightarrow> graph \<Rightarrow> real \<Rightarrow> node \<Rightarrow> node list \<Rightarrow> 'r \<Rightarrow> error + (edge list \<times> 'r)" where
  "scan_v e st gr m u [] g = Inr ([], g)"
| "scan_v e st gr m u (v # vs) g =
     (case state_at st v of
        Inl err \<Rightarrow> Inl err
      | Inr sv \<Rightarrow>
          (if sv \<noteq> SUSCEPTIBLE then scan_v e st gr m u vs g
           else (case neighbors gr v of
                   Inl err \<Rightarrow> Inl err
                 | Inr v_neighbors \<Rightarrow>
                     (case scan_w e st gr m u (set_iter e v_neighbors) g of
                        Inl err \<Rightarrow> Inl err
                      | Inr (es1, g1) \<Rightarrow>
                          (case scan_v e st gr m u vs g1 of
                             Inl err \<Rightarrow> Inl err
                           | Inr (es2, g2) \<Rightarrow> Inr (es1 @ es2, g2))))))"

fun scan_u ::
  "'r env \<Rightarrow> states \<Rightarrow> graph \<Rightarrow> real \<Rightarrow> node list \<Rightarrow> 'r \<Rightarrow> error + (edge list \<times> 'r)" where
  "scan_u e st gr m [] g = Inr ([], g)"
| "scan_u e st gr m (u # us) g =
     (if \<not> has_node gr u then scan_u e st gr m us g
      else (case neighbors gr u of
              Inl err \<Rightarrow> Inl err
            | Inr u_neighbors \<Rightarrow>
                (case scan_v e st gr m u (set_iter e u_neighbors) g of
                   Inl err \<Rightarrow> Inl err
                 | Inr (es1, g1) \<Rightarrow>
                     (case scan_u e st gr m us g1 of
                        Inl err \<Rightarrow> Inl err
                      | Inr (es2, g2) \<Rightarrow> Inr (es1 @ es2, g2)))))"

text \<open>
  The result of one adaptive step, with the two intermediate lists the source builds:
  \<^verbatim>\<open>edges_to_remove\<close> and \<^verbatim>\<open>edges_to_add\<close> as it stands when the scan ends,
  before \<^verbatim>\<open>list(set(...))\<close>.
\<close>

record 'r adaptive_result =
  edges_to_remove :: "edge list"
  graph_after_cut :: graph
  edges_to_add :: "edge list"
  edges_cut :: nat
  edges_added :: nat
  sim_after :: sim
  rng_after :: 'r

definition adaptive_step_full :: "'r env \<Rightarrow> 'r \<Rightarrow> sim \<Rightarrow> error + 'r adaptive_result" where
  "adaptive_step_full e g s =
     (case rule1_loop e (state s) (alpha s) (edges (G s)) g of
        Inl err \<Rightarrow> Inl err
      | Inr (to_remove, g1) \<Rightarrow>
          (let gr1 = remove_edges_from (G s) to_remove in
           case select_state (state s) SUSCEPTIBLE (nodes gr1) of
             Inl err \<Rightarrow> Inl err
           | Inr susceptible_nodes \<Rightarrow>
               (case check_loop (state s) to_remove of
                  Inl err \<Rightarrow> Inl err
                | Inr from_cut \<Rightarrow>
                    (let (nodes_to_check, g2) =
                           (if length (remdups from_cut) = 0 \<and> length susceptible_nodes > 0
                            then random_sample e g1 susceptible_nodes
                                   (min 50 (length susceptible_nodes))
                            else (from_cut, g1)) in
                     case scan_u e (state s) gr1 (mu s) (set_iter e nodes_to_check) g2 of
                       Inl err \<Rightarrow> Inl err
                     | Inr (to_add, g3) \<Rightarrow>
                         Inr \<lparr>edges_to_remove = to_remove,
                              graph_after_cut = gr1,
                              edges_to_add = to_add,
                              edges_cut = length to_remove,
                              edges_added = length (edge_set_iter e to_add),
                              sim_after = s\<lparr>G := add_edges_from gr1 (edge_set_iter e to_add)\<rparr>,
                              rng_after = g3\<rparr>))))"

definition adaptive_step :: "'r env \<Rightarrow> 'r \<Rightarrow> sim \<Rightarrow> error + ((nat \<times> nat) \<times> sim \<times> 'r)" where
  "adaptive_step e g s =
     (case adaptive_step_full e g s of
        Inl err \<Rightarrow> Inl err
      | Inr r \<Rightarrow> Inr ((edges_cut r, edges_added r), sim_after r, rng_after r))"

subsection \<open>epidemic\_step\<close>

fun infection_pass ::
  "'r env \<Rightarrow> states \<Rightarrow> graph \<Rightarrow> real \<Rightarrow> node list \<Rightarrow> 'r \<Rightarrow> error + (node list \<times> 'r)" where
  "infection_pass e st gr b [] g = Inr ([], g)"
| "infection_pass e st gr b (n # ns) g =
     (case state_at st n of
        Inl err \<Rightarrow> Inl err
      | Inr sn \<Rightarrow>
          (if sn = SUSCEPTIBLE
           then (case neighbors gr n of
                   Inl err \<Rightarrow> Inl err
                 | Inr nbrs \<Rightarrow>
                     (case select_state st INFECTED nbrs of
                        Inl err \<Rightarrow> Inl err
                      | Inr infected_neighbors \<Rightarrow>
                          (if length infected_neighbors > 0
                           then (case infection_pass e st gr b ns (snd (random_random e g)) of
                                   Inl err \<Rightarrow> Inl err
                                 | Inr (r, g') \<Rightarrow>
                                     Inr (if fst (random_random e g)
                                             < 1 - (1 - b) ^ length infected_neighbors
                                          then n # r else r, g'))
                           else infection_pass e st gr b ns g)))
           else infection_pass e st gr b ns g))"

fun recovery_pass ::
  "'r env \<Rightarrow> states \<Rightarrow> real \<Rightarrow> node list \<Rightarrow> 'r \<Rightarrow> error + (node list \<times> 'r)" where
  "recovery_pass e st ga [] g = Inr ([], g)"
| "recovery_pass e st ga (n # ns) g =
     (case state_at st n of
        Inl err \<Rightarrow> Inl err
      | Inr sn \<Rightarrow>
          (if sn = INFECTED
           then (case recovery_pass e st ga ns (snd (random_random e g)) of
                   Inl err \<Rightarrow> Inl err
                 | Inr (r, g') \<Rightarrow> Inr (if fst (random_random e g) < ga then n # r else r, g'))
           else recovery_pass e st ga ns g))"

definition set_all :: "cstate \<Rightarrow> node list \<Rightarrow> states \<Rightarrow> states" where
  "set_all c ns st = fold (\<lambda>n st'. st'(n \<mapsto> c)) ns st"

definition epidemic_step :: "'r env \<Rightarrow> 'r \<Rightarrow> sim \<Rightarrow> error + ((nat \<times> nat) \<times> sim \<times> 'r)" where
  "epidemic_step e g s =
     (case infection_pass e (state s) (G s) (beta s) (nodes (G s)) g of
        Inl err \<Rightarrow> Inl err
      | Inr (to_infect, g1) \<Rightarrow>
          (case recovery_pass e (state s) (gamma s) (nodes (G s)) g1 of
             Inl err \<Rightarrow> Inl err
           | Inr (to_recover, g2) \<Rightarrow>
               Inr ((length (remdups to_infect), length (remdups to_recover)),
                    s\<lparr>state := set_all RECOVERED (set_iter e to_recover)
                                 (set_all INFECTED (set_iter e to_infect) (state s))\<rparr>,
                    g2)))"

subsection \<open>run\<close>

definition record_counts :: "nat \<times> nat \<times> nat \<Rightarrow> nat \<Rightarrow> time_series_rec \<Rightarrow> time_series_rec" where
  "record_counts c t ts =
     \<lparr>ts_S = ts_S ts @ [fst c], ts_I = ts_I ts @ [fst (snd c)],
      ts_R = ts_R ts @ [snd (snd c)], ts_t = ts_t ts @ [t]\<rparr>"

definition record_metrics :: "metrics \<Rightarrow> network_metrics_rec \<Rightarrow> network_metrics_rec" where
  "record_metrics m nm =
     \<lparr>avg_degree = avg_degree nm @ [m_avg_degree m],
      clustering = clustering nm @ [m_clustering m],
      num_edges = num_edges nm @ [m_num_edges m],
      num_components = num_components nm @ [m_num_components m]\<rparr>"

text \<open>
  The body of the loop up to the stop test: count, record the counts and, when tracking,
  the metrics. It returns the infected count with the updated simulation.
\<close>

definition record_step :: "bool \<Rightarrow> nat \<Rightarrow> sim \<Rightarrow> error + (nat \<times> sim)" where
  "record_step track_network t s =
     (case count_states s of
        Inl err \<Rightarrow> Inl err
      | Inr c \<Rightarrow>
          (let s1 = s\<lparr>time_series := record_counts c t (time_series s)\<rparr> in
           if track_network
           then (case compute_network_metrics s1 of
                   Inl err \<Rightarrow> Inl err
                 | Inr m \<Rightarrow>
                     Inr (fst (snd c), s1\<lparr>network_metrics := record_metrics m (network_metrics s1)\<rparr>))
           else Inr (fst (snd c), s1)))"

text \<open>
  The loop \<^verbatim>\<open>while t < max_steps\<close>. Besides the simulation and the generator it returns
  \<open>obs\<close>, the compartment dictionary as it stood each time an entry was recorded; \<open>obs\<close>
  is written only, and serves to state properties of the whole run.
\<close>

function run_loop ::
  "'r env \<Rightarrow> int \<Rightarrow> bool \<Rightarrow> nat \<Rightarrow> 'r \<Rightarrow> sim \<Rightarrow> states list \<Rightarrow> error + (sim \<times> 'r \<times> states list)" where
  "run_loop e max_steps track_network t g s obs =
     (if int t < max_steps
      then (case record_step track_network t s of
              Inl err \<Rightarrow> Inl err
            | Inr (i, s1) \<Rightarrow>
                (if i = 0 then Inr (s1, g, obs @ [state s])
                 else (case adaptive_step e g s1 of
                         Inl err \<Rightarrow> Inl err
                       | Inr (ca, s2, g2) \<Rightarrow>
                           (case epidemic_step e g2 s2 of
                              Inl err \<Rightarrow> Inl err
                            | Inr (ir, s3, g3) \<Rightarrow>
                                run_loop e max_steps track_network (t + 1) g3 s3
                                  (obs @ [state s])))))
      else Inr (s, g, obs))"
  by pat_completeness auto
termination
  by (relation "measure (\<lambda>(e, max_steps, track_network, t, g, s, obs). nat (max_steps - int t))") auto

definition run_observed ::
  "'r env \<Rightarrow> 'r \<Rightarrow> sim \<Rightarrow> int \<Rightarrow> bool \<Rightarrow> error + (sim \<times> 'r \<times> states list)" where
  "run_observed e g s max_steps track_network =
     run_loop e max_steps track_network 0 g
       (s\<lparr>time_series := empty_time_series, network_metrics := empty_network_metrics\<rparr>) []"

definition run :: "'r env \<Rightarrow> 'r \<Rightarrow> sim \<Rightarrow> int \<Rightarrow> bool \<Rightarrow> error + (sim \<times> 'r)" where
  "run e g s max_steps track_network =
     (case run_observed e g s max_steps track_network of
        Inl err \<Rightarrow> Inl err
      | Inr (s', g', obs) \<Rightarrow> Inr (s', g'))"

text \<open>
  One simulation as \<^verbatim>\<open>run_multiple_asir_simulations\<close> performs it: construct, infect a
  random node, run, with nothing in between. \<open>simulate_nodes\<close> is the same with the
  patient-zero nodes given by the caller.
\<close>

definition simulate ::
  "'r env \<Rightarrow> 'r \<Rightarrow> graph \<Rightarrow> real \<Rightarrow> real \<Rightarrow> real \<Rightarrow> real \<Rightarrow> int option \<Rightarrow> int \<Rightarrow> bool
     \<Rightarrow> error + (sim \<times> 'r)" where
  "simulate e g graph b ga a m seed max_steps track_network =
     (case fst (init e graph b ga a m seed g) of
        Inl err \<Rightarrow> Inl err
      | Inr s0 \<Rightarrow>
          (case infect_random_node e (snd (init e graph b ga a m seed g)) s0 of
             Inl err \<Rightarrow> Inl err
           | Inr (patient_zero, s, g') \<Rightarrow> run e g' s max_steps track_network))"

definition simulate_nodes ::
  "'r env \<Rightarrow> 'r \<Rightarrow> graph \<Rightarrow> real \<Rightarrow> real \<Rightarrow> real \<Rightarrow> real \<Rightarrow> int option \<Rightarrow> node list
     \<Rightarrow> int \<Rightarrow> bool \<Rightarrow> error + (sim \<times> 'r)" where
  "simulate_nodes e g graph b ga a m seed pz max_steps track_network =
     (case fst (init e graph b ga a m seed g) of
        Inl err \<Rightarrow> Inl err
      | Inr s0 \<Rightarrow>
          run e (snd (init e graph b ga a m seed g)) (fold infect_node pz s0)
            max_steps track_network)"

text \<open>
  Two simulations constructed one after the other with the same arguments, given the same
  patient zero, and then run one after the other: the second run starts from the state in
  which the first run leaves the process-wide generator. The result is the pair of time
  series.
\<close>

definition construct_both_then_run ::
  "'r env \<Rightarrow> 'r \<Rightarrow> graph \<Rightarrow> real \<Rightarrow> real \<Rightarrow> real \<Rightarrow> real \<Rightarrow> int option \<Rightarrow> node
     \<Rightarrow> int \<Rightarrow> bool \<Rightarrow> error + (time_series_rec \<times> time_series_rec)" where
  "construct_both_then_run e g graph b ga a m seed pz max_steps track_network =
     (case init e graph b ga a m seed g of
        (Inl err, g1) \<Rightarrow> Inl err
      | (Inr sim_a, g1) \<Rightarrow>
          (case init e graph b ga a m seed g1 of
             (Inl err, g2) \<Rightarrow> Inl err
           | (Inr sim_b, g2) \<Rightarrow>
               (case run e g2 (infect_node pz sim_a) max_steps track_network of
                  Inl err \<Rightarrow> Inl err
                | Inr (sim_a', g3) \<Rightarrow>
                    (case run e g3 (infect_node pz sim_b) max_steps track_network of
                       Inl err \<Rightarrow> Inl err
                     | Inr (sim_b', g4) \<Rightarrow> Inr (time_series sim_a', time_series sim_b')))))"

section \<open>Well-formed inputs\<close>

text \<open>
  What networkx guarantees of every graph: the neighbours of a node are nodes, and
  adjacency is symmetric.
\<close>

definition closed_graph :: "graph \<Rightarrow> bool" where
  "closed_graph gr = (\<forall>e \<in> set gr. \<forall>v \<in> set (snd e). has_node gr v)"

definition symmetric_graph :: "graph \<Rightarrow> bool" where
  "symmetric_graph gr = (\<forall>e \<in> set gr. \<forall>v \<in> set (snd e). has_edge gr v (fst e))"

text \<open>
  What Python guarantees of the environment: iterating a set yields exactly its elements,
  each once; a sample is drawn from the population; a choice from a non-empty sequence is
  one of its elements; \<^verbatim>\<open>random.random()\<close> lies in \<open>[0, 1)\<close>.
\<close>

definition env_ok :: "'r env \<Rightarrow> bool" where
  "env_ok e =
     ((\<forall>xs. set (set_iter e xs) = set xs \<and> distinct (set_iter e xs)) \<and>
      (\<forall>xs. set (edge_set_iter e xs) = set xs \<and> distinct (edge_set_iter e xs)) \<and>
      (\<forall>g xs k. set (fst (random_sample e g xs k)) \<subseteq> set xs) \<and>
      (\<forall>g xs. xs \<noteq> [] \<longrightarrow> fst (random_choice e g xs) \<in> set xs) \<and>
      (\<forall>g. 0 \<le> fst (random_random e g) \<and> fst (random_random e g) < 1))"

text \<open>The invariant of a simulation object: every node of the graph has a state.\<close>

definition sim_inv :: "sim \<Rightarrow> bool" where
  "sim_inv s = (closed_graph (G s) \<and> set (nodes (G s)) \<subseteq> dom (state s))"

section \<open>Concrete inputs\<close>

text \<open>
  An environment whose generator state is a counter: the draws cycle through
  \<open>0, 1/4, 1/2, 3/4\<close>, a sample is the tail of the population reversed, and sets
  iterate in increasing order.
\<close>

definition demo_env :: "nat env" where
  "demo_env =
     \<lparr>random_random = (\<lambda>g. (real (g mod 4) / 4, Suc g)),
      random_sample = (\<lambda>g xs k. (take k (rev xs), Suc g)),
      random_choice = (\<lambda>g xs. (xs ! (g mod length xs), Suc g)),
      random_seed = (\<lambda>sd. nat \<bar>sd\<bar>),
      set_iter = (\<lambda>xs. sort (remdups xs)),
      edge_set_iter = remdups\<rparr>"

text \<open>A path \<open>0 - 1 - 2\<close> and an isolated node \<open>3\<close>.\<close>

definition path3 :: graph where
  "path3 = [(0, [1]), (1, [0, 2]), (2, [1]), (3, [])]"

definition path3_sim :: "real \<Rightarrow> real \<Rightarrow> real \<Rightarrow> real \<Rightarrow> sim" where
  "path3_sim b ga a m = infect_node 3 (new_sim path3 b ga a m)"

text \<open>A tree \<open>3 - 1 - 0 - 2 - 4\<close> and an isolated node \<open>5\<close>.\<close>

definition fork5 :: graph where
  "fork5 = [(0, [1, 2]), (1, [0, 3]), (2, [0, 4]), (3, [1]), (4, [2]), (5, [])]"

definition fork5_sim :: sim where
  "fork5_sim = infect_node 5 (new_sim fork5 (1/2) (1/2) 0 1)"

text \<open>
  An open triangle \<open>u - v - w\<close> as Rule 2 tests it: \<open>v\<close> is a susceptible neighbour of
  \<open>u\<close>, \<open>w\<close> is a susceptible neighbour of \<open>v\<close> other than \<open>u\<close>, and \<open>u\<close>, \<open>w\<close> are
  not adjacent.
\<close>

definition open_triangle :: "states \<Rightarrow> graph \<Rightarrow> node \<Rightarrow> node \<Rightarrow> node \<Rightarrow> bool" where
  "open_triangle st gr u v w =
     (has_edge gr u v \<and> st v = Some SUSCEPTIBLE \<and> has_edge gr v w \<and> w \<noteq> u \<and>
      st w = Some SUSCEPTIBLE \<and> \<not> has_edge gr u w)"

text \<open>
  What a run leaves of the epidemic and of the topology: the time series, the graph, the
  compartments and the generator state. The recorded metrics are left out.
\<close>

definition forget_metrics :: "sim \<Rightarrow> sim" where
  "forget_metrics s = s\<lparr>network_metrics := empty_network_metrics\<rparr>"

definition epidemic_outcome :: "error + (sim \<times> 'r) \<Rightarrow> error + (sim \<times> 'r)" where
  "epidemic_outcome res =
     (case res of Inl err \<Rightarrow> Inl err | Inr (s, g) \<Rightarrow> Inr (forget_metrics s, g))"

definition observed_outcome ::
  "error + (sim \<times> 'r \<times> states list) \<Rightarrow> error + (sim \<times> 'r \<times> states list)" where
  "observed_outcome res =
     (case res of Inl err \<Rightarrow> Inl err | Inr (s, g, obs) \<Rightarrow> Inr (forget_metrics s, g, obs))"

text \<open>
  State conservation of a time series: the four lists have one length, and every entry
  has \<open>S + I + R = n\<close>.
\<close>

definition entry_sums :: "time_series_rec \<Rightarrow> nat list" where
  "entry_sums ts = map (\<lambda>(a, b, c). a + b + c) (zip (ts_S ts) (zip (ts_I ts) (ts_R ts)))"

definition conserved :: "nat \<Rightarrow> time_series_rec \<Rightarrow> bool" where
  "conserved n ts =
     (length (ts_S ts) = length (ts_t ts) \<and> length (ts_I ts) = length (ts_t ts) \<and>
      length (ts_R ts) = length (ts_t ts) \<and>
      entry_sums ts = replicate (length (ts_t ts)) n)"

text \<open>
  The transitions of one node between two consecutive observations, and the position of a
  compartment in the order \<open>S\<close>, \<open>I\<close>, \<open>R\<close>. A node that is not a key of the dictionary is
  \<open>None\<close>.
\<close>

definition allowed_transition :: "cstate option \<Rightarrow> cstate option \<Rightarrow> bool" where
  "allowed_transition a b =
     (a = b \<or> (a = Some SUSCEPTIBLE \<and> b = Some INFECTED) \<or>
      (a = Some INFECTED \<and> b = Some RECOVERED))"

fun stage :: "cstate option \<Rightarrow> nat" where
  "stage None = 0"
| "stage (Some SUSCEPTIBLE) = 0"
| "stage (Some INFECTED) = 1"
| "stage (Some RECOVERED) = 2"

text \<open>
  A simulation on the tree \<open>3 - 1 - 0 - 2 - 4\<close> with node \<open>0\<close> as patient zero.
\<close>

definition outbreak_sim :: sim where
  "outbreak_sim = infect_node 0 (new_sim fork5 (3/4) (1/2) (1/2) (1/2))"

text \<open>
  The deterministic spread of one step when every exposed node is infected and none
  recovers: a susceptible node with an infected neighbour becomes infected.
\<close>

definition spread :: "graph \<Rightarrow> states \<Rightarrow> states" where
  "spread gr st =
     (\<lambda>n. if n \<in> set (nodes gr) \<and> st n = Some SUSCEPTIBLE \<and>
             list_ex (\<lambda>v. st v = Some INFECTED) (adj_of gr n)
          then Some INFECTED else st n)"

text \<open>
  The ring lattice on \<open>n\<close> nodes in which every node is joined to its two nearest
  neighbours on each side (\<open>k = 4\<close>), the simulation of the scenario on it
  (\<open>beta = 1\<close>, \<open>gamma = alpha = mu = 0\<close>, patient zero at node \<open>0\<close>), the compartments
  \<open>front k\<close> in which exactly the nodes within \<open>2 k\<close> hops of node \<open>0\<close> are infected,
  and the number \<open>wave t\<close> of infected nodes at step \<open>t\<close>.
\<close>

definition ring_lattice :: "nat \<Rightarrow> graph" where
  "ring_lattice n =
     map (\<lambda>i. (i, [(i + 1) mod n, (i + n - 1) mod n, (i + 2) mod n, (i + n - 2) mod n])) [0..<n]"

definition ring_sim :: sim where
  "ring_sim = infect_node 0 (new_sim (ring_lattice 20) 1 0 0 0)"

definition front :: "nat \<Rightarrow> states" where
  "front k =
     (\<lambda>n. if n < 20 then (if n \<le> 2 * k \<or> 20 \<le> n + 2 * k then Some INFECTED
                            else Some SUSCEPTIBLE)
          else None)"

definition wave :: "nat \<Rightarrow> nat" where
  "wave t = min (4 * t + 1) 20"

section \<open>Properties\<close>

lemma demo_env_ok: "env_ok demo_env"
  by (auto simp: env_ok_def demo_env_def dest: in_set_takeD)

subsection \<open>Graph operations\<close>

lemma has_node_map_of: "has_node gr u \<longleftrightarrow> map_of gr u \<noteq> None"
  by (simp add: has_node_def nodes_def map_of_eq_None_iff)

lemma neighbors_has_node: "has_node gr u \<Longrightarrow> \<exists>ns. neighbors gr u = Inr ns"
  by (auto simp: has_node_map_of neighbors_def)

lemma neighbors_Inr: "neighbors gr u = Inr ns \<Longrightarrow> map_of gr u = Some ns"
  by (auto simp: neighbors_def split: option.splits)

lemma neighbors_has_edge: "neighbors gr u = Inr ns \<Longrightarrow> v \<in> set ns \<longleftrightarrow> has_edge gr u v"
  by (auto simp: neighbors_def has_edge_def split: option.splits)

lemma has_edge_has_node: "has_edge gr u v \<Longrightarrow> has_node gr u"
  by (auto simp: has_edge_def has_node_map_of split: option.splits)

lemma closed_has_edge: "closed_graph gr \<Longrightarrow> has_edge gr u v \<Longrightarrow> has_node gr v"
  by (auto simp: closed_graph_def has_edge_def split: option.splits dest!: map_of_SomeD)

lemma symmetric_has_edge: "symmetric_graph gr \<Longrightarrow> has_edge gr u v \<Longrightarrow> has_edge gr v u"
  by (auto simp: symmetric_graph_def has_edge_def[of gr u v] split: option.splits dest!: map_of_SomeD)

lemma nodes_del_adj: "nodes (del_adj gr u v) = nodes gr"
  by (induction gr) (auto simp: del_adj_def nodes_def)

lemma map_of_del_adj:
  "map_of (del_adj gr u v) a =
     (case map_of gr a of None \<Rightarrow> None
      | Some ns \<Rightarrow> Some (if a = u then removeAll v ns else ns))"
  by (induction gr) (auto simp: del_adj_def)

lemma has_edge_del_adj: "has_edge (del_adj gr u v) a b \<longleftrightarrow> has_edge gr a b \<and> \<not> (a = u \<and> b = v)"
  by (auto simp: has_edge_def map_of_del_adj split: option.splits)

lemma closed_del_adj: "closed_graph gr \<Longrightarrow> closed_graph (del_adj gr u v)"
  unfolding closed_graph_def has_node_def nodes_del_adj
  by (auto simp: del_adj_def split: if_splits)

lemma nodes_remove_edge: "nodes (remove_edge e gr) = nodes gr"
  by (simp add: remove_edge_def nodes_del_adj)

lemma closed_remove_edge: "closed_graph gr \<Longrightarrow> closed_graph (remove_edge e gr)"
  by (simp add: remove_edge_def closed_del_adj)

lemma has_edge_remove_edge_sub: "has_edge (remove_edge e gr) a b \<Longrightarrow> has_edge gr a b"
  by (auto simp: remove_edge_def has_edge_del_adj split: if_splits)

lemma has_edge_remove_edge_other:
  "(a, b) \<noteq> e \<Longrightarrow> (b, a) \<noteq> e \<Longrightarrow> has_edge (remove_edge e gr) a b = has_edge gr a b"
  by (cases e) (auto simp: remove_edge_def has_edge_del_adj split: if_splits)

lemma nodes_remove_edges_from: "nodes (remove_edges_from gr es) = nodes gr"
  unfolding remove_edges_from_def
  by (induction es arbitrary: gr) (simp_all add: nodes_remove_edge)

lemma closed_remove_edges_from: "closed_graph gr \<Longrightarrow> closed_graph (remove_edges_from gr es)"
  unfolding remove_edges_from_def
  by (induction es arbitrary: gr) (simp_all add: closed_remove_edge)

lemma has_edge_remove_edges_from_sub:
  "has_edge (remove_edges_from gr es) a b \<Longrightarrow> has_edge gr a b"
  unfolding remove_edges_from_def
  by (induction es arbitrary: gr) (auto dest: has_edge_remove_edge_sub)

lemma has_edge_remove_edges_from_other:
  "(a, b) \<notin> set es \<Longrightarrow> (b, a) \<notin> set es \<Longrightarrow>
   has_edge (remove_edges_from gr es) a b = has_edge gr a b"
  unfolding remove_edges_from_def
  by (induction es arbitrary: gr) (auto simp: has_edge_remove_edge_other)

lemma has_node_remove_edges_from: "has_node (remove_edges_from gr es) u = has_node gr u"
  by (simp add: has_node_def nodes_remove_edges_from)

lemma nodes_add_adj: "nodes (add_adj gr u v) = nodes gr"
  by (induction gr) (auto simp: add_adj_def nodes_def)

lemma closed_add_adj: "closed_graph gr \<Longrightarrow> has_node gr v \<Longrightarrow> closed_graph (add_adj gr u v)"
  unfolding closed_graph_def has_node_def nodes_add_adj
  by (auto simp: add_adj_def split: if_splits)

lemma add_node_present: "has_node gr u \<Longrightarrow> add_node gr u = gr"
  by (simp add: add_node_def)

lemma nodes_add_edge:
  "has_node gr (fst e) \<Longrightarrow> has_node gr (snd e) \<Longrightarrow> nodes (add_edge e gr) = nodes gr"
  by (simp add: add_edge_def add_node_present nodes_add_adj)

lemma closed_add_edge:
  "closed_graph gr \<Longrightarrow> has_node gr (fst e) \<Longrightarrow> has_node gr (snd e) \<Longrightarrow>
   closed_graph (add_edge e gr)"
  by (simp add: add_edge_def add_node_present closed_add_adj has_node_def nodes_add_adj)

lemma add_edges_from_nodes_closed:
  "closed_graph gr \<Longrightarrow> \<forall>e \<in> set es. has_node gr (fst e) \<and> has_node gr (snd e) \<Longrightarrow>
   nodes (add_edges_from gr es) = nodes gr \<and> closed_graph (add_edges_from gr es)"
  unfolding add_edges_from_def
proof (induction es arbitrary: gr)
  case Nil
  then show ?case by simp
next
  case (Cons e es)
  have n: "nodes (add_edge e gr) = nodes gr" and c: "closed_graph (add_edge e gr)"
    using Cons.prems by (simp_all add: nodes_add_edge closed_add_edge)
  have "\<forall>x \<in> set es. has_node (add_edge e gr) (fst x) \<and> has_node (add_edge e gr) (snd x)"
    using Cons.prems(2) by (simp add: has_node_def n)
  from Cons.IH[OF c this] show ?case by (simp add: n)
qed

lemma edges_from_endpoints:
  "(u, v) \<in> set (edges_from seen gr) \<Longrightarrow> \<exists>e \<in> set gr. fst e = u \<and> v \<in> set (snd e)"
  by (induction seen gr rule: edges_from.induct) auto

lemma edges_endpoints:
  "closed_graph gr \<Longrightarrow> (u, v) \<in> set (edges gr) \<Longrightarrow> has_node gr u \<and> has_node gr v"
  unfolding edges_def
  by (drule edges_from_endpoints) (auto simp: closed_graph_def has_node_def nodes_def)

lemma copy_graph_nodes_closed:
  assumes "closed_graph gr"
  shows "nodes (copy_graph gr) = nodes gr \<and> closed_graph (copy_graph gr)"
proof -
  let ?g0 = "map (\<lambda>e. (fst e, [])) gr"
  let ?es = "concat (map (\<lambda>e. map (Pair (fst e)) (snd e)) gr)"
  have n0: "nodes ?g0 = nodes gr" by (simp add: nodes_def comp_def)
  have c0: "closed_graph ?g0" by (auto simp: closed_graph_def)
  have "\<forall>x \<in> set ?es. has_node ?g0 (fst x) \<and> has_node ?g0 (snd x)"
    using assms by (force simp: closed_graph_def has_node_def nodes_def comp_def)
  from add_edges_from_nodes_closed[OF c0 this] show ?thesis
    by (simp add: copy_graph_def n0)
qed

subsection \<open>The loops of the adaptive step\<close>

lemma state_at_dom: "n \<in> dom st \<Longrightarrow> \<exists>c. state_at st n = Inr c"
  by (auto simp: state_at_def)

lemma state_at_Inr: "state_at st n = Inr c \<longleftrightarrow> st n = Some c"
  by (auto simp: state_at_def split: option.splits)

lemma select_state_ok: "set ns \<subseteq> dom st \<Longrightarrow> select_state st c ns = Inr (filter (\<lambda>n. st n = Some c) ns)"
  by (induction ns) (auto simp: state_at_def)

lemma select_state_Inr: "select_state st c ns = Inr r \<Longrightarrow> r = filter (\<lambda>n. st n = Some c) ns"
  by (induction ns arbitrary: r) (auto simp: state_at_def split: option.splits sum.splits if_splits)

lemma rule1_loop_ok:
  "\<forall>uv \<in> set es. fst uv \<in> dom st \<and> snd uv \<in> dom st \<Longrightarrow>
   \<exists>r g'. rule1_loop e st a es g = Inr (r, g')"
proof (induction es arbitrary: g)
  case Nil
  then show ?case by simp
next
  case (Cons uv es)
  obtain su sv where s: "state_at st (fst uv) = Inr su" "state_at st (snd uv) = Inr sv"
    using Cons.prems by (auto simp: state_at_def)
  have ih: "\<And>g. \<exists>r g'. rule1_loop e st a es g = Inr (r, g')"
    using Cons by simp
  show ?case
    using ih[of g] ih[of "snd (random_random e g)"] by (auto simp: s)
qed

lemma rule1_loop_Cons:
  "rule1_loop e st a (uv # es) g = Inr (r, g') \<Longrightarrow>
   \<exists>r' g0. rule1_loop e st a es g0 = Inr (r', g') \<and>
     (r = r' \<or> (r = uv # r' \<and>
       ((st (fst uv) = Some SUSCEPTIBLE \<and> st (snd uv) = Some INFECTED) \<or>
        (st (snd uv) = Some SUSCEPTIBLE \<and> st (fst uv) = Some INFECTED))))"
  by (auto simp: state_at_Inr split: sum.splits if_splits)

lemma rule1_loop_Inr:
  "rule1_loop e st a es g = Inr (r, g') \<Longrightarrow> uv \<in> set r \<Longrightarrow>
   uv \<in> set es \<and>
      ((st (fst uv) = Some SUSCEPTIBLE \<and> st (snd uv) = Some INFECTED) \<or>
       (st (snd uv) = Some SUSCEPTIBLE \<and> st (fst uv) = Some INFECTED))"
proof (induction es arbitrary: g r g')
  case Nil
  then show ?case by simp
next
  case (Cons x es)
  from rule1_loop_Cons[OF Cons.prems(1)] obtain r' g0 where
    rec: "rule1_loop e st a es g0 = Inr (r', g')" and
    r: "r = r' \<or> (r = x # r' \<and>
       ((st (fst x) = Some SUSCEPTIBLE \<and> st (snd x) = Some INFECTED) \<or>
        (st (snd x) = Some SUSCEPTIBLE \<and> st (fst x) = Some INFECTED)))"
    by blast
  show ?case
  proof (cases "uv \<in> set r'")
    case True
    from Cons.IH[OF rec True] show ?thesis by simp
  next
    case False
    with r Cons.prems(2) show ?thesis by auto
  qed
qed

lemma check_loop_ok:
  "\<forall>uv \<in> set es. fst uv \<in> dom st \<and> snd uv \<in> dom st \<Longrightarrow> \<exists>r. check_loop st es = Inr r"
  by (induction es) (auto simp: state_at_def)

lemma check_loop_Inr:
  "check_loop st es = Inr r \<Longrightarrow>
   \<forall>n \<in> set r. st n = Some SUSCEPTIBLE \<and> (\<exists>uv \<in> set es. n = fst uv \<or> n = snd uv)"
proof (induction es arbitrary: r)
  case Nil
  then show ?case by simp
next
  case (Cons uv es)
  then show ?case
    by (auto simp: state_at_Inr split: sum.splits if_splits)
qed

lemma scan_w_ok: "set ws \<subseteq> dom st \<Longrightarrow> \<exists>r g'. scan_w e st gr m u ws g = Inr (r, g')"
proof (induction ws arbitrary: g)
  case Nil
  then show ?case by simp
next
  case (Cons w ws)
  obtain sw where s: "state_at st w = Inr sw"
    using Cons.prems by (auto simp: state_at_def)
  have ih: "\<And>g. \<exists>r g'. scan_w e st gr m u ws g = Inr (r, g')"
    using Cons by simp
  show ?case
    using ih[of g] ih[of "snd (random_random e g)"] by (auto simp: s)
qed

lemma scan_w_Inr:
  "scan_w e st gr m u ws g = Inr (r, g') \<Longrightarrow>
   length r \<le> 1 \<and>
   (\<forall>uw \<in> set r. fst uw = u \<and> snd uw \<in> set ws \<and> snd uw \<noteq> u \<and>
       st (snd uw) = Some SUSCEPTIBLE \<and> \<not> has_edge gr u (snd uw))"
proof (induction ws arbitrary: g r g')
  case Nil
  then show ?case by simp
next
  case (Cons w ws)
  then show ?case
    by (auto simp: state_at_Inr split: sum.splits if_splits) 
qed

lemma set_iter_set: "env_ok e \<Longrightarrow> set (set_iter e xs) = set xs"
  by (simp add: env_ok_def)

lemma edge_set_iter_set: "env_ok e \<Longrightarrow> set (edge_set_iter e xs) = set xs"
  by (simp add: env_ok_def)

lemma closed_neighbors:
  "closed_graph gr \<Longrightarrow> neighbors gr u = Inr ns \<Longrightarrow> v \<in> set ns \<Longrightarrow> has_node gr v"
  by (auto simp: neighbors_has_edge dest: closed_has_edge)

lemma scan_v_ok:
  assumes "env_ok e" "closed_graph gr" "set (nodes gr) \<subseteq> dom st"
  shows "\<forall>v \<in> set vs. has_node gr v \<Longrightarrow> \<exists>r g'. scan_v e st gr m u vs g = Inr (r, g')"
proof (induction vs arbitrary: g)
  case Nil
  then show ?case by simp
next
  case (Cons v vs)
  have hv: "has_node gr v" using Cons.prems by simp
  then obtain sv where sv: "state_at st v = Inr sv"
    using assms(3) state_at_dom[of v st] by (auto simp: has_node_def)
  obtain ns where ns: "neighbors gr v = Inr ns"
    using neighbors_has_node[OF hv] by blast
  have "set (set_iter e ns) \<subseteq> dom st"
    using closed_neighbors[OF assms(2) ns] assms(3) by (auto simp: set_iter_set[OF assms(1)] has_node_def)
  from scan_w_ok[OF this, where e=e and gr=gr and m=m and u=u and g=g] obtain r1 g1 where
    w: "scan_w e st gr m u (set_iter e ns) g = Inr (r1, g1)" by blast
  have ih: "\<And>g. \<exists>r g'. scan_v e st gr m u vs g = Inr (r, g')"
    using Cons by simp
  show ?case
    using ih[of g] ih[of g1] by (auto simp: sv ns w)
qed

lemma scan_v_Cons:
  "scan_v e st gr m u (v # vs) g = Inr (r, g') \<Longrightarrow>
   (\<exists>g0 r1 r2 ns. scan_v e st gr m u vs g0 = Inr (r2, g') \<and> r = r1 @ r2 \<and>
      (r1 = [] \<or> (st v = Some SUSCEPTIBLE \<and> neighbors gr v = Inr ns \<and>
                  (\<exists>g1 g2. scan_w e st gr m u (set_iter e ns) g1 = Inr (r1, g2)))))"
  by (auto simp: state_at_Inr split: sum.splits if_splits prod.splits) blast+

lemma scan_v_Inr:
  assumes "env_ok e"
  shows "scan_v e st gr m u vs g = Inr (r, g') \<Longrightarrow> uw \<in> set r \<Longrightarrow>
   fst uw = u \<and> (\<exists>v \<in> set vs. st v = Some SUSCEPTIBLE \<and> has_edge gr v (snd uw)) \<and>
   snd uw \<noteq> u \<and> st (snd uw) = Some SUSCEPTIBLE \<and> \<not> has_edge gr u (snd uw)"
proof (induction vs arbitrary: g r g')
  case Nil
  then show ?case by simp
next
  case (Cons v vs)
  from scan_v_Cons[OF Cons.prems(1)] obtain g0 r1 r2 ns where
    rec: "scan_v e st gr m u vs g0 = Inr (r2, g')" and r: "r = r1 @ r2" and
    r1: "r1 = [] \<or> (st v = Some SUSCEPTIBLE \<and> neighbors gr v = Inr ns \<and>
                  (\<exists>g1 g2. scan_w e st gr m u (set_iter e ns) g1 = Inr (r1, g2)))"
    by blast
  show ?case
  proof (cases "uw \<in> set r2")
    case True
    from Cons.IH[OF rec True] show ?thesis by auto
  next
    case False
    then have in1: "uw \<in> set r1" using r Cons.prems(2) by simp
    then obtain g1 g2 where sv: "st v = Some SUSCEPTIBLE" and ns: "neighbors gr v = Inr ns"
      and w: "scan_w e st gr m u (set_iter e ns) g1 = Inr (r1, g2)"
      using r1 by auto
    from scan_w_Inr[OF w] in1
    have "fst uw = u \<and> snd uw \<in> set (set_iter e ns) \<and> snd uw \<noteq> u \<and>
       st (snd uw) = Some SUSCEPTIBLE \<and> \<not> has_edge gr u (snd uw)" by blast
    then show ?thesis
      using sv neighbors_has_edge[OF ns] by (auto simp: set_iter_set[OF assms])
  qed
qed

lemma scan_u_ok:
  assumes "env_ok e" "closed_graph gr" "set (nodes gr) \<subseteq> dom st"
  shows "\<exists>r g'. scan_u e st gr m us g = Inr (r, g')"
proof (induction us arbitrary: g)
  case Nil
  then show ?case by simp
next
  case (Cons u us)
  have ih: "\<And>g. \<exists>r g'. scan_u e st gr m us g = Inr (r, g')"
    using Cons by simp
  show ?case
  proof (cases "has_node gr u")
    case False
    then show ?thesis using ih[of g] by simp
  next
    case True
    obtain ns where ns: "neighbors gr u = Inr ns"
      using neighbors_has_node[OF True] by blast
    have "\<forall>v \<in> set (set_iter e ns). has_node gr v"
      using closed_neighbors[OF assms(2) ns] by (simp add: set_iter_set[OF assms(1)])
    from scan_v_ok[OF assms this, where m=m and u=u and g=g] obtain r1 g1 where
      v: "scan_v e st gr m u (set_iter e ns) g = Inr (r1, g1)" by blast
    show ?thesis using ih[of g1] True by (auto simp: ns v)
  qed
qed

lemma scan_u_Cons:
  "scan_u e st gr m (u # us) g = Inr (r, g') \<Longrightarrow>
   (\<exists>g0 r1 r2 ns. scan_u e st gr m us g0 = Inr (r2, g') \<and> r = r1 @ r2 \<and>
      (r1 = [] \<or> (has_node gr u \<and> neighbors gr u = Inr ns \<and>
                  (\<exists>g1 g2. scan_v e st gr m u (set_iter e ns) g1 = Inr (r1, g2)))))"
  by (auto split: sum.splits if_splits prod.splits) blast+

lemma scan_u_Inr:
  assumes "env_ok e"
  shows "scan_u e st gr m us g = Inr (r, g') \<Longrightarrow> uw \<in> set r \<Longrightarrow>
   fst uw \<in> set us \<and> has_node gr (fst uw) \<and> (\<exists>v. open_triangle st gr (fst uw) v (snd uw))"
proof (induction us arbitrary: g r g')
  case Nil
  then show ?case by simp
next
  case (Cons u us)
  from scan_u_Cons[OF Cons.prems(1)] obtain g0 r1 r2 ns where
    rec: "scan_u e st gr m us g0 = Inr (r2, g')" and r: "r = r1 @ r2" and
    r1: "r1 = [] \<or> (has_node gr u \<and> neighbors gr u = Inr ns \<and>
                  (\<exists>g1 g2. scan_v e st gr m u (set_iter e ns) g1 = Inr (r1, g2)))"
    by blast
  show ?case
  proof (cases "uw \<in> set r2")
    case True
    from Cons.IH[OF rec True] show ?thesis by auto
  next
    case False
    then have in1: "uw \<in> set r1" using r Cons.prems(2) by simp
    then obtain g1 g2 where hn: "has_node gr u" and ns: "neighbors gr u = Inr ns"
      and v: "scan_v e st gr m u (set_iter e ns) g1 = Inr (r1, g2)"
      using r1 by auto
    from scan_v_Inr[OF assms v in1] obtain v where
      "fst uw = u" "v \<in> set (set_iter e ns)" "st v = Some SUSCEPTIBLE" "has_edge gr v (snd uw)"
      "snd uw \<noteq> u" "st (snd uw) = Some SUSCEPTIBLE" "\<not> has_edge gr u (snd uw)"
      by blast
    then show ?thesis
      using hn neighbors_has_edge[OF ns] 
      by (auto simp: set_iter_set[OF assms] open_triangle_def)
  qed
qed

lemma adaptive_step_full_cases:
  assumes "adaptive_step_full e g s = Inr r"
  obtains g1 sus from_cut ntc g2 where
    "rule1_loop e (state s) (alpha s) (edges (G s)) g = Inr (edges_to_remove r, g1)"
    "graph_after_cut r = remove_edges_from (G s) (edges_to_remove r)"
    "select_state (state s) SUSCEPTIBLE (nodes (graph_after_cut r)) = Inr sus"
    "check_loop (state s) (edges_to_remove r) = Inr from_cut"
    "(ntc, g2) = (if length (remdups from_cut) = 0 \<and> length sus > 0
                  then random_sample e g1 sus (min 50 (length sus)) else (from_cut, g1))"
    "scan_u e (state s) (graph_after_cut r) (mu s) (set_iter e ntc) g2
       = Inr (edges_to_add r, rng_after r)"
    "sim_after r = s\<lparr>G := add_edges_from (graph_after_cut r) (edge_set_iter e (edges_to_add r))\<rparr>"
    "edges_cut r = length (edges_to_remove r)"
    "edges_added r = length (edge_set_iter e (edges_to_add r))"
  using assms
  by (auto simp: adaptive_step_full_def Let_def split: sum.splits prod.splits)

lemma adaptive_step_full_removed:
  assumes "adaptive_step_full e g s = Inr r" "uv \<in> set (edges_to_remove r)"
  shows "uv \<in> set (edges (G s)) \<and>
      ((state s (fst uv) = Some SUSCEPTIBLE \<and> state s (snd uv) = Some INFECTED) \<or>
       (state s (snd uv) = Some SUSCEPTIBLE \<and> state s (fst uv) = Some INFECTED))"
  using assms(1)
proof (cases rule: adaptive_step_full_cases)
  case (1 g1 sus from_cut ntc g2)
  from rule1_loop_Inr[OF 1(1) assms(2)] show ?thesis .
qed

lemma adaptive_step_full_added:
  assumes ok: "env_ok e" and r: "adaptive_step_full e g s = Inr r"
    and uw: "uw \<in> set (edges_to_add r)"
  shows "state s (fst uw) = Some SUSCEPTIBLE \<and> has_node (graph_after_cut r) (fst uw) \<and>
         (\<exists>v. open_triangle (state s) (graph_after_cut r) (fst uw) v (snd uw))"
  using r
proof (cases rule: adaptive_step_full_cases)
  case (1 g1 sus from_cut ntc g2)
  from scan_u_Inr[OF ok 1(6) uw]
  have u: "fst uw \<in> set ntc" and hn: "has_node (graph_after_cut r) (fst uw)"
    and tri: "\<exists>v. open_triangle (state s) (graph_after_cut r) (fst uw) v (snd uw)"
    by (auto simp: set_iter_set[OF ok])
  have sus: "sus = filter (\<lambda>n. state s n = Some SUSCEPTIBLE) (nodes (graph_after_cut r))"
    using select_state_Inr[OF 1(3)] .
  have "\<forall>n \<in> set ntc. state s n = Some SUSCEPTIBLE"
  proof (cases "length (remdups from_cut) = 0 \<and> length sus > 0")
    case True
    then have "ntc = fst (random_sample e g1 sus (min 50 (length sus)))"
      using 1(5) by (metis fst_conv)
    moreover have "set (fst (random_sample e g1 sus (min 50 (length sus)))) \<subseteq> set sus"
      using ok by (simp add: env_ok_def)
    ultimately show ?thesis using sus by auto
  next
    case False
    then have "ntc = from_cut" using 1(5) by auto
    then show ?thesis using check_loop_Inr[OF 1(4)] by blast
  qed
  with u hn tri show ?thesis by blast
qed

lemma adaptive_step_full_graph:
  assumes ok: "env_ok e" and r: "adaptive_step_full e g s = Inr r" and c: "closed_graph (G s)"
  shows "nodes (G (sim_after r)) = nodes (G s) \<and> closed_graph (G (sim_after r)) \<and>
         state (sim_after r) = state s \<and> N (sim_after r) = N s \<and>
         time_series (sim_after r) = time_series s \<and>
         network_metrics (sim_after r) = network_metrics s \<and>
         beta (sim_after r) = beta s \<and> gamma (sim_after r) = gamma s \<and>
         alpha (sim_after r) = alpha s \<and> mu (sim_after r) = mu s"
  using r
proof (cases rule: adaptive_step_full_cases)
  case (1 g1 sus from_cut ntc g2)
  let ?gr1 = "graph_after_cut r"
  have c1: "closed_graph ?gr1" and n1: "nodes ?gr1 = nodes (G s)"
    using c by (simp_all add: 1(2) closed_remove_edges_from nodes_remove_edges_from)
  have "\<forall>x \<in> set (edge_set_iter e (edges_to_add r)). has_node ?gr1 (fst x) \<and> has_node ?gr1 (snd x)"
  proof
    fix x assume "x \<in> set (edge_set_iter e (edges_to_add r))"
    then have x: "x \<in> set (edges_to_add r)" by (simp add: edge_set_iter_set[OF ok])
    from adaptive_step_full_added[OF ok r x] obtain v where
      "has_node ?gr1 (fst x)" "open_triangle (state s) ?gr1 (fst x) v (snd x)" by blast
    then show "has_node ?gr1 (fst x) \<and> has_node ?gr1 (snd x)"
      using closed_has_edge[OF c1] by (auto simp: open_triangle_def)
  qed
  from add_edges_from_nodes_closed[OF c1 this] show ?thesis
    by (simp add: 1(7) n1)
qed

lemma adaptive_step_full_ok:
  assumes ok: "env_ok e" and c: "closed_graph (G s)" and d: "set (nodes (G s)) \<subseteq> dom (state s)"
  shows "\<exists>r. adaptive_step_full e g s = Inr r"
proof -
  have "\<forall>uv \<in> set (edges (G s)). fst uv \<in> dom (state s) \<and> snd uv \<in> dom (state s)"
    using edges_endpoints[OF c] d by (fastforce simp: has_node_def)
  from rule1_loop_ok[OF this, of e "alpha s" g] obtain rm g1 where
    r1: "rule1_loop e (state s) (alpha s) (edges (G s)) g = Inr (rm, g1)" by blast
  let ?gr1 = "remove_edges_from (G s) rm"
  have c1: "closed_graph ?gr1" and n1: "nodes ?gr1 = nodes (G s)"
    using c by (simp_all add: closed_remove_edges_from nodes_remove_edges_from)
  have sel: "select_state (state s) SUSCEPTIBLE (nodes ?gr1)
      = Inr (filter (\<lambda>n. state s n = Some SUSCEPTIBLE) (nodes ?gr1))"
    using select_state_ok[of "nodes ?gr1" "state s"] d n1 by simp
  have "\<forall>uv \<in> set rm. fst uv \<in> dom (state s) \<and> snd uv \<in> dom (state s)"
    using rule1_loop_Inr[OF r1] by (auto simp: dom_def)
  from check_loop_ok[OF this] obtain fc where fc: "check_loop (state s) rm = Inr fc" by blast
  have d1: "set (nodes ?gr1) \<subseteq> dom (state s)" using d n1 by simp
  have sc: "\<And>us g. \<exists>r g'. scan_u e (state s) ?gr1 (mu s) us g = Inr (r, g')"
    using scan_u_ok[OF ok c1 d1] by blast
  show ?thesis
    unfolding adaptive_step_full_def r1
    apply (simp add: Let_def sel fc split: prod.splits)
    using sc by (metis (no_types, lifting) old.sum.simps(6) old.prod.case)
qed

lemma map_of_add_adj:
  "map_of (add_adj gr u v) a =
     (case map_of gr a of None \<Rightarrow> None
      | Some ns \<Rightarrow> Some (if a = u then (if v \<in> set ns then ns else ns @ [v]) else ns))"
  by (induction gr) (auto simp: add_adj_def)

lemma has_edge_add_adj:
  "has_edge (add_adj gr u v) a b \<longleftrightarrow> has_edge gr a b \<or> (a = u \<and> b = v \<and> has_node gr u)"
  by (auto simp: has_edge_def map_of_add_adj has_node_map_of split: option.splits)

lemma has_edge_add_node: "has_edge (add_node gr u) a b \<longleftrightarrow> has_edge gr a b"
  by (auto simp: has_edge_def add_node_def has_node_map_of map_add_def split: option.splits)

lemma has_edge_add_edge:
  "has_edge (add_edge e gr) a b \<Longrightarrow> has_edge gr a b \<or> (a, b) = e \<or> (b, a) = e"
  by (cases e) (auto simp: add_edge_def has_edge_add_adj has_edge_add_node)

lemma has_edge_add_edges_from:
  "has_edge (add_edges_from gr es) a b \<Longrightarrow>
   has_edge gr a b \<or> (a, b) \<in> set es \<or> (b, a) \<in> set es"
  unfolding add_edges_from_def
proof (induction es arbitrary: gr)
  case Nil
  then show ?case by simp
next
  case (Cons e es)
  from Cons.IH[of "add_edge e gr"] Cons.prems
  have "has_edge (add_edge e gr) a b \<or> (a, b) \<in> set es \<or> (b, a) \<in> set es" by simp
  then show ?case using has_edge_add_edge[of e gr a b] by auto
qed

lemma proposed_edge_properties:
  assumes ok: "env_ok e" and sym: "symmetric_graph (G s)"
    and r: "adaptive_step_full e g s = Inr r" and uw: "(u, w) \<in> set (edges_to_add r)"
  shows "state s u = Some SUSCEPTIBLE \<and> state s w = Some SUSCEPTIBLE \<and> u \<noteq> w \<and>
         \<not> has_edge (G s) u w \<and> \<not> has_edge (G s) w u \<and>
         (\<exists>v. state s v = Some SUSCEPTIBLE \<and> has_edge (G s) u v \<and> has_edge (G s) w v)"
proof -
  from adaptive_step_full_added[OF ok r uw] obtain v where
    su: "state s u = Some SUSCEPTIBLE" and tri: "open_triangle (state s) (graph_after_cut r) u v w"
    by auto
  have gr1: "graph_after_cut r = remove_edges_from (G s) (edges_to_remove r)"
    using r by (cases rule: adaptive_step_full_cases)
  have sw: "state s w = Some SUSCEPTIBLE" and sv: "state s v = Some SUSCEPTIBLE" and ne: "w \<noteq> u"
    using tri by (simp_all add: open_triangle_def)
  have nr: "(u, w) \<notin> set (edges_to_remove r)" "(w, u) \<notin> set (edges_to_remove r)"
    using adaptive_step_full_removed[OF r, of "(u, w)"] adaptive_step_full_removed[OF r, of "(w, u)"]
      su sw by auto
  have "\<not> has_edge (graph_after_cut r) u w" using tri by (simp add: open_triangle_def)
  then have n1: "\<not> has_edge (G s) u w"
    using has_edge_remove_edges_from_other[OF nr, of "G s"] by (simp add: gr1)
  then have n2: "\<not> has_edge (G s) w u"
    using symmetric_has_edge[OF sym, of w u] by blast
  have "has_edge (G s) u v" "has_edge (G s) v w"
    using tri has_edge_remove_edges_from_sub[of "G s" "edges_to_remove r"]
    by (auto simp: open_triangle_def gr1)
  then have "has_edge (G s) u v \<and> has_edge (G s) w v"
    using symmetric_has_edge[OF sym, of v w] by blast
  with su sw sv ne n1 n2 show ?thesis by blast
qed

subsection \<open>The run loop\<close>

lemma number_of_edges_pos_nodes: "number_of_edges gr > 0 \<Longrightarrow> number_of_nodes gr \<noteq> 0"
  by (cases gr) (auto simp: number_of_edges_def number_of_nodes_def)

lemma compute_network_metrics_total: "\<exists>m. compute_network_metrics s = Inr m"
  using number_of_edges_pos_nodes[of "G s"]
  by (cases "number_of_edges (G s) > 0") (simp_all add: compute_network_metrics_def)

lemma compute_network_metrics_field [simp]:
  "compute_network_metrics (s\<lparr>network_metrics := x\<rparr>) = compute_network_metrics s"
  "compute_network_metrics (s\<lparr>time_series := y\<rparr>) = compute_network_metrics s"
  by (simp_all add: compute_network_metrics_def)

lemma count_states_field [simp]:
  "count_states (s\<lparr>network_metrics := x\<rparr>) = count_states s"
  "count_states (s\<lparr>time_series := y\<rparr>) = count_states s"
  by (simp_all add: count_states_def)

lemma record_step_cases:
  assumes "record_step tn t s = Inr (i, s1)"
  obtains c nm where "count_states s = Inr c" "i = fst (snd c)"
    "s1 = s\<lparr>time_series := record_counts c t (time_series s), network_metrics := nm\<rparr>"
    "tn \<or> nm = network_metrics s"
  using assms
  by (auto simp: record_step_def Let_def split: sum.splits if_splits)

lemma record_step_ok:
  assumes "count_states s = Inr c"
  shows "\<exists>nm. record_step tn t s =
     Inr (fst (snd c), s\<lparr>time_series := record_counts c t (time_series s), network_metrics := nm\<rparr>)"
proof (cases tn)
  case True
  obtain m where "compute_network_metrics s = Inr m"
    using compute_network_metrics_total by blast
  then show ?thesis using True assms
    by (intro exI[of _ "record_metrics m (network_metrics s)"]) (simp add: record_step_def Let_def)
next
  case False
  have "s\<lparr>time_series := record_counts c t (time_series s)\<rparr>
      = s\<lparr>time_series := record_counts c t (time_series s), network_metrics := network_metrics s\<rparr>"
    by simp
  then show ?thesis using False assms
    by (intro exI[of _ "network_metrics s"]) (simp add: record_step_def Let_def)
qed

lemma record_step_Inl:
  "record_step tn t s = Inl err \<longleftrightarrow> count_states s = Inl err"
proof (cases "count_states s")
  case (Inl a)
  then show ?thesis by (simp add: record_step_def)
next
  case (Inr c)
  with record_step_ok[OF Inr, of tn t] show ?thesis by auto
qed

lemma adaptive_step_full_metrics:
  "adaptive_step_full e g (s\<lparr>network_metrics := x\<rparr>) =
     (case adaptive_step_full e g s of
        Inl err \<Rightarrow> Inl err
      | Inr r \<Rightarrow> Inr (r\<lparr>sim_after := (sim_after r)\<lparr>network_metrics := x\<rparr>\<rparr>))"
  by (simp add: adaptive_step_full_def Let_def split: sum.splits prod.splits)

lemma adaptive_step_metrics:
  "adaptive_step e g (s\<lparr>network_metrics := x\<rparr>) =
     (case adaptive_step e g s of
        Inl err \<Rightarrow> Inl err
      | Inr (c, s2, g2) \<Rightarrow> Inr (c, s2\<lparr>network_metrics := x\<rparr>, g2))"
  by (simp add: adaptive_step_def adaptive_step_full_metrics split: sum.splits)

lemma epidemic_step_metrics:
  "epidemic_step e g (s\<lparr>network_metrics := x\<rparr>) =
     (case epidemic_step e g s of
        Inl err \<Rightarrow> Inl err
      | Inr (c, s2, g2) \<Rightarrow> Inr (c, s2\<lparr>network_metrics := x\<rparr>, g2))"
  by (simp add: epidemic_step_def split: sum.splits prod.splits)

lemma forget_metrics_update [simp]:
  "forget_metrics (s\<lparr>network_metrics := x\<rparr>) = forget_metrics s"
  by (simp add: forget_metrics_def)


declare run_loop.simps [simp del]

lemma run_loop_done: "\<not> int t < m \<Longrightarrow> run_loop e m tn t g s obs = Inr (s, g, obs)"
  by (subst run_loop.simps) simp

lemma run_loop_err_record:
  "int t < m \<Longrightarrow> record_step tn t s = Inl err \<Longrightarrow> run_loop e m tn t g s obs = Inl err"
  by (subst run_loop.simps) simp

lemma run_loop_stop:
  "int t < m \<Longrightarrow> record_step tn t s = Inr (0, s1) \<Longrightarrow>
   run_loop e m tn t g s obs = Inr (s1, g, obs @ [state s])"
  by (subst run_loop.simps) simp

lemma run_loop_err_adaptive:
  "int t < m \<Longrightarrow> record_step tn t s = Inr (i, s1) \<Longrightarrow> i \<noteq> 0 \<Longrightarrow>
   adaptive_step e g s1 = Inl err \<Longrightarrow> run_loop e m tn t g s obs = Inl err"
  by (subst run_loop.simps) simp

lemma run_loop_err_epidemic:
  "int t < m \<Longrightarrow> record_step tn t s = Inr (i, s1) \<Longrightarrow> i \<noteq> 0 \<Longrightarrow>
   adaptive_step e g s1 = Inr (ca, s2, g2) \<Longrightarrow> epidemic_step e g2 s2 = Inl err \<Longrightarrow>
   run_loop e m tn t g s obs = Inl err"
  by (subst run_loop.simps) simp

lemma run_loop_step:
  "int t < m \<Longrightarrow> record_step tn t s = Inr (i, s1) \<Longrightarrow> i \<noteq> 0 \<Longrightarrow>
   adaptive_step e g s1 = Inr (ca, s2, g2) \<Longrightarrow> epidemic_step e g2 s2 = Inr (ir, s3, g3) \<Longrightarrow>
   run_loop e m tn t g s obs = run_loop e m tn (t + 1) g3 s3 (obs @ [state s])"
  by (subst run_loop.simps) simp

lemma run_loop_metrics:
  "observed_outcome (run_loop e m tn' t g (s\<lparr>network_metrics := x\<rparr>) obs)
     = observed_outcome (run_loop e m tn t g s obs)"
proof (induction e m tn t g s obs arbitrary: x rule: run_loop.induct)
  case (1 e m tn t g s obs)
  let ?sx = "s\<lparr>network_metrics := x\<rparr>"
  show ?case
  proof (cases "int t < m")
    case False
    then show ?thesis
      by (simp add: run_loop_done observed_outcome_def)
  next
    case lt: True
    show ?thesis
    proof (cases "count_states s")
      case (Inl err)
      then have "record_step tn t s = Inl err" "record_step tn' t ?sx = Inl err"
        by (simp_all add: record_step_Inl)
      then show ?thesis using lt
        by (simp add: run_loop_err_record)
    next
      case (Inr c)
      let ?s0 = "s\<lparr>time_series := record_counts c t (time_series s)\<rparr>"
      obtain nm where r1: "record_step tn t s = Inr (fst (snd c), ?s0\<lparr>network_metrics := nm\<rparr>)"
        using record_step_ok[OF Inr, of tn t] by auto
      have "count_states ?sx = Inr c" using Inr by simp
      from record_step_ok[OF this, of tn' t]
      obtain nm' where r2: "record_step tn' t ?sx
          = Inr (fst (snd c), ?s0\<lparr>network_metrics := nm'\<rparr>)"
        by auto
      let ?s1 = "?s0\<lparr>network_metrics := nm\<rparr>"
      let ?s1' = "?s0\<lparr>network_metrics := nm'\<rparr>"
      have s1': "?s1' = ?s1\<lparr>network_metrics := nm'\<rparr>" by simp
      have st: "state ?sx = state s" by simp
      show ?thesis
      proof (cases "fst (snd c) = 0")
        case True
        have "run_loop e m tn t g s obs = Inr (?s1, g, obs @ [state s])"
          using run_loop_stop[OF lt, of tn s ?s1] r1 True by simp
        moreover have "run_loop e m tn' t g ?sx obs = Inr (?s1', g, obs @ [state s])"
          using run_loop_stop[OF lt, of tn' ?sx ?s1'] r2 True by simp
        ultimately show ?thesis
          by (simp add: observed_outcome_def forget_metrics_def)
      next
        case nz: False
        show ?thesis
        proof (cases "adaptive_step e g ?s1")
          case (Inl err)
          then have a': "adaptive_step e g ?s1' = Inl err"
            using adaptive_step_metrics[where e=e and g=g and s="?s1" and x=nm'] by simp
          show ?thesis
            using run_loop_err_adaptive[OF lt r1 nz Inl] run_loop_err_adaptive[OF lt r2 nz a']
            by simp
        next
          case a: (Inr ar)
          obtain ca s2 g2 where ar: "adaptive_step e g ?s1 = Inr (ca, s2, g2)"
            using a by (cases ar) auto
          have ar': "adaptive_step e g ?s1' = Inr (ca, s2\<lparr>network_metrics := nm'\<rparr>, g2)"
            using adaptive_step_metrics[where e=e and g=g and s="?s1" and x=nm'] ar by simp
          show ?thesis
          proof (cases "epidemic_step e g2 s2")
            case (Inl err)
            then have "epidemic_step e g2 (s2\<lparr>network_metrics := nm'\<rparr>) = Inl err"
              using epidemic_step_metrics[where e=e and g=g2 and s=s2 and x=nm'] by simp
            then show ?thesis
              using run_loop_err_epidemic[OF lt r1 nz ar Inl]
                run_loop_err_epidemic[OF lt r2 nz ar'] by simp
          next
            case ep: (Inr er)
            obtain ir s3 g3 where er: "epidemic_step e g2 s2 = Inr (ir, s3, g3)"
              using ep by (cases er) auto
            have er': "epidemic_step e g2 (s2\<lparr>network_metrics := nm'\<rparr>)
                = Inr (ir, s3\<lparr>network_metrics := nm'\<rparr>, g3)"
              using epidemic_step_metrics[where e=e and g=g2 and s=s2 and x=nm'] er by simp
            have ih: "observed_outcome (run_loop e m tn' (t + 1) g3 (s3\<lparr>network_metrics := nm'\<rparr>) (obs @ [state s]))
                = observed_outcome (run_loop e m tn (t + 1) g3 s3 (obs @ [state s]))"
              by (rule "1.IH"[OF lt r1 refl nz ar refl refl er refl refl])
            show ?thesis
              using run_loop_step[OF lt r1 nz ar er] run_loop_step[OF lt r2 nz ar' er'] ih st
              by simp
          qed
        qed
      qed
    qed
  qed
qed

lemma record_step_empty_graph:
  "record_step tn t (s\<lparr>G := []\<rparr>) =
     Inr (0, s\<lparr>G := [],
               time_series := record_counts (0, 0, 0) t (time_series s),
               network_metrics :=
                 (if tn then record_metrics
                    \<lparr>m_avg_degree = 0, m_clustering = 0, m_num_edges = 0, m_num_components = 0\<rparr>
                    (network_metrics s)
                  else network_metrics s)\<rparr>)"
  by (simp add: record_step_def count_states_def nodes_def compute_network_metrics_def
      number_of_edges_def average_clustering_def number_connected_components_def Let_def)

lemma run_empty_graph:
  "run e g (s\<lparr>G := []\<rparr>) max_steps track_network =
     Inr (s\<lparr>G := [],
            time_series :=
              (if 0 < max_steps then \<lparr>ts_S = [0], ts_I = [0], ts_R = [0], ts_t = [0]\<rparr>
               else empty_time_series),
            network_metrics :=
              (if 0 < max_steps \<and> track_network
               then \<lparr>avg_degree = [0], clustering = [0], num_edges = [0], num_components = [0]\<rparr>
               else empty_network_metrics)\<rparr>, g)"
proof (cases "0 < max_steps")
  case True
  let ?s0 = "s\<lparr>time_series := empty_time_series, network_metrics := empty_network_metrics\<rparr>"
  have eq: "s\<lparr>G := [], time_series := empty_time_series, network_metrics := empty_network_metrics\<rparr>
      = ?s0\<lparr>G := []\<rparr>" by simp
  have lt: "int 0 < max_steps" using True by simp
  show ?thesis
    unfolding run_def run_observed_def eq
    by (simp add: run_loop_stop[OF lt record_step_empty_graph] True
        record_counts_def record_metrics_def empty_time_series_def empty_network_metrics_def)
next
  case False
  then have "\<not> int 0 < max_steps" by simp
  then show ?thesis
    unfolding run_def run_observed_def
    by (simp add: run_loop_done False)
qed

lemma run_loop_success_induct [consumes 1, case_names finished stopped stepped]:
  assumes res: "run_loop e m tn t g s obs = Inr res"
    and fin: "\<And>t g s obs. \<not> int t < m \<Longrightarrow> P t g s obs (s, g, obs)"
    and stop: "\<And>t g s obs s1. int t < m \<Longrightarrow> record_step tn t s = Inr (0, s1) \<Longrightarrow>
                 P t g s obs (s1, g, obs @ [state s])"
    and step: "\<And>t g s obs i s1 ca s2 g2 ir s3 g3 res.
                 int t < m \<Longrightarrow> record_step tn t s = Inr (i, s1) \<Longrightarrow> i \<noteq> 0 \<Longrightarrow>
                 adaptive_step e g s1 = Inr (ca, s2, g2) \<Longrightarrow>
                 epidemic_step e g2 s2 = Inr (ir, s3, g3) \<Longrightarrow>
                 run_loop e m tn (t + 1) g3 s3 (obs @ [state s]) = Inr res \<Longrightarrow>
                 P (t + 1) g3 s3 (obs @ [state s]) res \<Longrightarrow> P t g s obs res"
  shows "P t g s obs res"
  using res fin stop step
proof (induction e m tn t g s obs arbitrary: res rule: run_loop.induct)
  case (1 e m tn t g s obs)
  show ?case
  proof (cases "int t < m")
    case False
    then show ?thesis using "1.prems"(1) "1.prems"(2)[OF False] by (auto simp: run_loop_done)
  next
    case lt: True
    show ?thesis
    proof (cases "record_step tn t s")
      case (Inl err)
      then show ?thesis using "1.prems"(1) run_loop_err_record[OF lt Inl, where e=e and g=g and obs=obs] by simp
    next
      case (Inr p)
      obtain i s1 where r1: "record_step tn t s = Inr (i, s1)" using Inr by (cases p) auto
      show ?thesis
      proof (cases "i = 0")
        case True
        then show ?thesis
          using "1.prems"(1) run_loop_stop[OF lt, of tn s s1 e g obs] r1 "1.prems"(3)[OF lt, of s s1 g obs]
          by auto
      next
        case nz: False
        show ?thesis
        proof (cases "adaptive_step e g s1")
          case (Inl err)
          then show ?thesis using "1.prems"(1) run_loop_err_adaptive[OF lt r1 nz Inl, where obs=obs] by simp
        next
          case (Inr q)
          obtain ca s2 g2 where ar: "adaptive_step e g s1 = Inr (ca, s2, g2)"
            using Inr by (cases q) auto
          show ?thesis
          proof (cases "epidemic_step e g2 s2")
            case (Inl err)
            then show ?thesis
              using "1.prems"(1) run_loop_err_epidemic[OF lt r1 nz ar Inl, where obs=obs] by simp
          next
            case (Inr q')
            obtain ir s3 g3 where er: "epidemic_step e g2 s2 = Inr (ir, s3, g3)"
              using Inr by (cases q') auto
            have next_res: "run_loop e m tn (t + 1) g3 s3 (obs @ [state s]) = Inr res"
              using "1.prems"(1) run_loop_step[OF lt r1 nz ar er, where obs=obs] by simp
            have "P (t + 1) g3 s3 (obs @ [state s]) res"
              by (rule "1.IH"[OF lt r1 refl nz ar refl refl er refl refl next_res])
                 (fact "1.prems"(2), fact "1.prems"(3), fact "1.prems"(4))
            from "1.prems"(4)[OF lt r1 nz ar er next_res this] show ?thesis .
          qed
        qed
      qed
    qed
  qed
qed

subsection \<open>Counting and the epidemic step\<close>

lemma count_loop_sum:
  "count_loop st ns c = Inr c' \<Longrightarrow>
   fst c' + fst (snd c') + snd (snd c') = fst c + fst (snd c) + snd (snd c) + length ns"
proof (induction ns arbitrary: c)
  case Nil
  then show ?case by simp
next
  case (Cons n ns)
  then show ?case
    by (auto simp: state_at_def split: option.splits cstate.splits)
qed

lemma count_loop_ok: "set ns \<subseteq> dom st \<Longrightarrow> \<exists>c'. count_loop st ns c = Inr c'"
proof (induction ns arbitrary: c)
  case Nil
  show ?case by (metis count_loop.simps(1))
next
  case (Cons n ns)
  then obtain x where x: "st n = Some x" by auto
  have ih: "\<And>c. \<exists>c'. count_loop st ns c = Inr c'" using Cons by simp
  show ?case
    using ih[of "(fst c + 1, fst (snd c), snd (snd c))"] ih[of "(fst c, fst (snd c) + 1, snd (snd c))"]
      ih[of "(fst c, fst (snd c), snd (snd c) + 1)"] x
    by (cases x) (simp_all add: state_at_def)
qed

lemma count_states_sum:
  "count_states s = Inr c \<Longrightarrow> fst c + fst (snd c) + snd (snd c) = length (nodes (G s))"
  using count_loop_sum[of "state s" "nodes (G s)" "(0, 0, 0)" c] by (simp add: count_states_def)

lemma count_states_ok: "set (nodes (G s)) \<subseteq> dom (state s) \<Longrightarrow> \<exists>c. count_states s = Inr c"
  unfolding count_states_def by (rule count_loop_ok)

lemma conserved_record:
  "conserved n ts \<Longrightarrow> fst c + fst (snd c) + snd (snd c) = n \<Longrightarrow>
   conserved n (record_counts c t ts)"
  by (cases c) (simp add: conserved_def entry_sums_def record_counts_def replicate_append_same)

lemma conserved_empty: "conserved n empty_time_series"
  by (simp add: conserved_def entry_sums_def empty_time_series_def)

lemma set_all_apply:
  "set_all c ns st n = (if n \<in> set ns then Some c else st n)"
  unfolding set_all_def
  by (induction ns arbitrary: st) auto

lemma infection_pass_Cons:
  "infection_pass e st gr b (n # ns) g = Inr (r, g') \<Longrightarrow>
   \<exists>r' g0. infection_pass e st gr b ns g0 = Inr (r', g') \<and>
     (r = r' \<or> (r = n # r' \<and> st n = Some SUSCEPTIBLE))"
  by (auto simp: state_at_Inr split: sum.splits if_splits)

lemma infection_pass_Inr:
  "infection_pass e st gr b ns g = Inr (r, g') \<Longrightarrow> n \<in> set r \<Longrightarrow>
   n \<in> set ns \<and> st n = Some SUSCEPTIBLE"
proof (induction ns arbitrary: g r g')
  case Nil
  then show ?case by simp
next
  case (Cons x ns)
  from infection_pass_Cons[OF Cons.prems(1)] obtain r' g0 where
    rec: "infection_pass e st gr b ns g0 = Inr (r', g')" and
    r: "r = r' \<or> (r = x # r' \<and> st x = Some SUSCEPTIBLE)" by blast
  show ?case
  proof (cases "n \<in> set r'")
    case True
    from Cons.IH[OF rec True] show ?thesis by simp
  next
    case False
    with r Cons.prems(2) show ?thesis by auto
  qed
qed

lemma recovery_pass_Cons:
  "recovery_pass e st ga (n # ns) g = Inr (r, g') \<Longrightarrow>
   \<exists>r' g0. recovery_pass e st ga ns g0 = Inr (r', g') \<and>
     (r = r' \<or> (r = n # r' \<and> st n = Some INFECTED))"
  by (auto simp: state_at_Inr split: sum.splits if_splits)

lemma recovery_pass_Inr:
  "recovery_pass e st ga ns g = Inr (r, g') \<Longrightarrow> n \<in> set r \<Longrightarrow>
   n \<in> set ns \<and> st n = Some INFECTED"
proof (induction ns arbitrary: g r g')
  case Nil
  then show ?case by simp
next
  case (Cons x ns)
  from recovery_pass_Cons[OF Cons.prems(1)] obtain r' g0 where
    rec: "recovery_pass e st ga ns g0 = Inr (r', g')" and
    r: "r = r' \<or> (r = x # r' \<and> st x = Some INFECTED)" by blast
  show ?case
  proof (cases "n \<in> set r'")
    case True
    from Cons.IH[OF rec True] show ?thesis by simp
  next
    case False
    with r Cons.prems(2) show ?thesis by auto
  qed
qed

lemma infection_pass_ok:
  assumes "closed_graph gr" "set (nodes gr) \<subseteq> dom st"
  shows "set ns \<subseteq> set (nodes gr) \<Longrightarrow> \<exists>r g'. infection_pass e st gr b ns g = Inr (r, g')"
proof (induction ns arbitrary: g)
  case Nil
  then show ?case by simp
next
  case (Cons n ns)
  have hn: "has_node gr n" using Cons.prems by (simp add: has_node_def)
  obtain sn where sn: "state_at st n = Inr sn"
    using Cons.prems assms(2) state_at_dom[of n st] by auto
  obtain nbrs where nb: "neighbors gr n = Inr nbrs"
    using neighbors_has_node[OF hn] by blast
  have "set nbrs \<subseteq> dom st"
    using closed_neighbors[OF assms(1) nb] assms(2) by (auto simp: has_node_def)
  then have sel: "select_state st INFECTED nbrs = Inr (filter (\<lambda>n. st n = Some INFECTED) nbrs)"
    by (rule select_state_ok)
  have ih: "\<And>g. \<exists>r g'. infection_pass e st gr b ns g = Inr (r, g')"
    using Cons by simp
  show ?case
    using ih[of g] ih[of "snd (random_random e g)"] by (auto simp: sn nb sel)
qed

lemma recovery_pass_ok:
  "set ns \<subseteq> dom st \<Longrightarrow> \<exists>r g'. recovery_pass e st ga ns g = Inr (r, g')"
proof (induction ns arbitrary: g)
  case Nil
  then show ?case by simp
next
  case (Cons n ns)
  obtain sn where sn: "state_at st n = Inr sn"
    using Cons.prems state_at_dom[of n st] by auto
  have ih: "\<And>g. \<exists>r g'. recovery_pass e st ga ns g = Inr (r, g')"
    using Cons by simp
  show ?case
    using ih[of g] ih[of "snd (random_random e g)"] by (auto simp: sn)
qed

lemma epidemic_step_cases:
  assumes "epidemic_step e g s = Inr (c, s', g')"
  obtains to_infect to_recover g1 where
    "infection_pass e (state s) (G s) (beta s) (nodes (G s)) g = Inr (to_infect, g1)"
    "recovery_pass e (state s) (gamma s) (nodes (G s)) g1 = Inr (to_recover, g')"
    "s' = s\<lparr>state := set_all RECOVERED (set_iter e to_recover)
                        (set_all INFECTED (set_iter e to_infect) (state s))\<rparr>"
    "c = (length (remdups to_infect), length (remdups to_recover))"
  using assms
  by (auto simp: epidemic_step_def split: sum.splits prod.splits)

lemma epidemic_step_ok:
  assumes "closed_graph (G s)" "set (nodes (G s)) \<subseteq> dom (state s)"
  shows "\<exists>c s' g'. epidemic_step e g s = Inr (c, s', g')"
proof -
  obtain ti g1 where i: "infection_pass e (state s) (G s) (beta s) (nodes (G s)) g = Inr (ti, g1)"
    using infection_pass_ok[OF assms, of "nodes (G s)" e "beta s" g] by auto
  obtain tr g2 where r: "recovery_pass e (state s) (gamma s) (nodes (G s)) g1 = Inr (tr, g2)"
    using recovery_pass_ok[OF assms(2), of e "gamma s" g1] by auto
  show ?thesis by (simp add: epidemic_step_def i r)
qed

lemma epidemic_step_transition:
  assumes ok: "env_ok e" and r: "epidemic_step e g s = Inr (c, s', g')"
  shows "allowed_transition (state s n) (state s' n)"
  using r
proof (cases rule: epidemic_step_cases)
  case (1 to_infect to_recover g1)
  have i: "n \<in> set to_infect \<Longrightarrow> state s n = Some SUSCEPTIBLE"
    using infection_pass_Inr[OF 1(1)] by blast
  have rc: "n \<in> set to_recover \<Longrightarrow> state s n = Some INFECTED"
    using recovery_pass_Inr[OF 1(2)] by blast
  show ?thesis
    using i rc
    by (auto simp: 1(3) set_all_apply set_iter_set[OF ok] allowed_transition_def)
qed

lemma epidemic_step_fields:
  assumes "epidemic_step e g s = Inr (c, s', g')"
  shows "G s' = G s \<and> N s' = N s \<and> time_series s' = time_series s \<and>
         network_metrics s' = network_metrics s \<and> beta s' = beta s \<and> gamma s' = gamma s \<and>
         alpha s' = alpha s \<and> mu s' = mu s \<and> dom (state s) \<subseteq> dom (state s')"
  using assms
proof (cases rule: epidemic_step_cases)
  case (1 to_infect to_recover g1)
  show ?thesis by (auto simp: 1(3) set_all_apply dom_def)
qed

lemma adaptive_step_full_of:
  "adaptive_step e g s = Inr (c, s2, g2) \<Longrightarrow>
   \<exists>r. adaptive_step_full e g s = Inr r \<and> s2 = sim_after r \<and> g2 = rng_after r \<and>
       c = (edges_cut r, edges_added r)"
  by (auto simp: adaptive_step_def split: sum.splits)

lemma adaptive_step_fields:
  assumes ok: "env_ok e" and r: "adaptive_step e g s = Inr (c, s2, g2)"
    and cl: "closed_graph (G s)"
  shows "nodes (G s2) = nodes (G s) \<and> closed_graph (G s2) \<and> state s2 = state s \<and>
         N s2 = N s \<and> time_series s2 = time_series s \<and>
         network_metrics s2 = network_metrics s \<and> beta s2 = beta s \<and> gamma s2 = gamma s \<and>
         alpha s2 = alpha s \<and> mu s2 = mu s"
  using adaptive_step_full_of[OF r] adaptive_step_full_graph[OF ok _ cl] by blast

lemma adaptive_step_state:
  "adaptive_step e g s = Inr (c, s2, g2) \<Longrightarrow> state s2 = state s"
  by (auto simp: adaptive_step_def adaptive_step_full_def Let_def split: sum.splits prod.splits)

lemma adaptive_step_ok:
  assumes "env_ok e" "closed_graph (G s)" "set (nodes (G s)) \<subseteq> dom (state s)"
  shows "\<exists>c s2 g2. adaptive_step e g s = Inr (c, s2, g2)"
  using adaptive_step_full_ok[OF assms, of g] by (auto simp: adaptive_step_def)

subsection \<open>Invariants of the run loop\<close>

lemma run_loop_total:
  "env_ok e \<Longrightarrow> closed_graph (G s) \<Longrightarrow> set (nodes (G s)) \<subseteq> dom (state s) \<Longrightarrow>
   \<exists>res. run_loop e m tn t g s obs = Inr res"
proof (induction e m tn t g s obs rule: run_loop.induct)
  case (1 e m tn t g s obs)
  note ok = "1.prems"(1)
  show ?case
  proof (cases "int t < m")
    case False
    then show ?thesis by (simp add: run_loop_done)
  next
    case lt: True
    obtain c where c: "count_states s = Inr c"
      using count_states_ok[OF "1.prems"(3)] by blast
    obtain nm where r1: "record_step tn t s =
        Inr (fst (snd c), s\<lparr>time_series := record_counts c t (time_series s), network_metrics := nm\<rparr>)"
      using record_step_ok[OF c, of tn t] by blast
    let ?s1 = "s\<lparr>time_series := record_counts c t (time_series s), network_metrics := nm\<rparr>"
    show ?thesis
    proof (cases "fst (snd c) = 0")
      case True
      then show ?thesis using run_loop_stop[OF lt, of tn s ?s1 e g obs] r1 by simp
    next
      case nz: False
      have c1: "closed_graph (G ?s1)" and d1: "set (nodes (G ?s1)) \<subseteq> dom (state ?s1)"
        using "1.prems"(2,3) by simp_all
      obtain ca s2 g2 where ar: "adaptive_step e g ?s1 = Inr (ca, s2, g2)"
        using adaptive_step_ok[OF ok c1 d1, of g] by blast
      have f2: "nodes (G s2) = nodes (G ?s1)" "closed_graph (G s2)" "state s2 = state ?s1"
        using adaptive_step_fields[OF ok ar c1] by simp_all
      have d2: "set (nodes (G s2)) \<subseteq> dom (state s2)" using f2 d1 by simp
      obtain ir s3 g3 where er: "epidemic_step e g2 s2 = Inr (ir, s3, g3)"
        using epidemic_step_ok[OF f2(2) d2, of e g2] by blast
      have f3: "G s3 = G s2" "dom (state s2) \<subseteq> dom (state s3)"
        using epidemic_step_fields[OF er] by simp_all
      have c3: "closed_graph (G s3)" and d3: "set (nodes (G s3)) \<subseteq> dom (state s3)"
        using f3 f2(2) d2 by auto
      from "1.IH"[OF lt r1 refl nz ar refl refl er refl refl ok c3 d3]
      show ?thesis using run_loop_step[OF lt r1 nz ar er, where obs=obs] by simp
    qed
  qed
qed

lemma run_loop_conserved:
  assumes ok: "env_ok e" and res: "run_loop e m tn t g s obs = Inr res"
  shows "closed_graph (G s) \<Longrightarrow> N s = length (nodes (G s)) \<Longrightarrow>
         conserved (N s) (time_series s) \<Longrightarrow>
         conserved (N s) (time_series (fst res)) \<and> N (fst res) = N s"
  using res
proof (induction rule: run_loop_success_induct)
  case (finished t g s obs)
  then show ?case by simp
next
  case (stopped t g s obs s1)
  from stopped(2) show ?case
  proof (cases rule: record_step_cases)
    case (1 c nm)
    show ?thesis
      using conserved_record[OF stopped(5), of c t] count_states_sum[OF 1(1)] stopped(4)
      by (simp add: 1(3))
  qed
next
  case (stepped t g s obs i s1 ca s2 g2 ir s3 g3 res)
  from stepped(2) obtain c nm where c: "count_states s = Inr c"
    and s1: "s1 = s\<lparr>time_series := record_counts c t (time_series s), network_metrics := nm\<rparr>"
    by (cases rule: record_step_cases)
  have cons1: "conserved (N s) (time_series s1)"
    using conserved_record[OF stepped(10), of c t] count_states_sum[OF c] stepped(9)
    by (simp add: s1)
  have c1: "closed_graph (G s1)" using stepped(8) by (simp add: s1)
  have f2: "nodes (G s2) = nodes (G s1)" "closed_graph (G s2)" "N s2 = N s1"
    "time_series s2 = time_series s1"
    using adaptive_step_fields[OF ok stepped(4) c1] by simp_all
  have f3: "G s3 = G s2" "N s3 = N s2" "time_series s3 = time_series s2"
    using epidemic_step_fields[OF stepped(5)] by simp_all
  have n: "N s3 = N s" using f3 f2 by (simp add: s1)
  have "conserved (N s3) (time_series (fst res)) \<and> N (fst res) = N s3"
    using stepped(7) f2 f3 cons1 stepped(9) n by (simp add: s1)
  then show ?case by (simp add: n)
qed

lemma successively_snoc_cons:
  "successively P (x # xs) \<Longrightarrow> P y x \<Longrightarrow> successively P (y # x # xs)"
  by simp

lemma run_loop_trace:
  assumes ok: "env_ok e" and res: "run_loop e m tn t g s obs = Inr res"
  shows "\<exists>tr. snd (snd res) @ [state (fst res)] = obs @ state s # tr \<and>
              successively (\<lambda>a b. \<forall>n. allowed_transition (a n) (b n)) (state s # tr)"
  using res
proof (induction rule: run_loop_success_induct)
  case (finished t g s obs)
  then show ?case by simp
next
  case (stopped t g s obs s1)
  from stopped(2) have "state s1 = state s"
    by (cases rule: record_step_cases) simp
  then show ?case by (simp add: allowed_transition_def)
next
  case (stepped t g s obs i s1 ca s2 g2 ir s3 g3 res)
  from stepped(2) have s1: "state s1 = state s"
    by (cases rule: record_step_cases) simp
  have s2: "state s2 = state s1" using adaptive_step_state[OF stepped(4)] .
  have tr: "\<forall>n. allowed_transition (state s n) (state s3 n)"
    using epidemic_step_transition[OF ok stepped(5)] by (simp add: s1 s2)
  from stepped(7) obtain tr' where
    eq: "snd (snd res) @ [state (fst res)] = (obs @ [state s]) @ state s3 # tr'" and
    su: "successively (\<lambda>a b. \<forall>n. allowed_transition (a n) (b n)) (state s3 # tr')"
    by blast
  show ?case
    using eq su tr by (intro exI[of _ "state s3 # tr'"]) simp
qed

lemma copy_fork5: "copy_graph fork5 = fork5"
  by code_simp

lemma outbreak_sim_inv:
  "closed_graph (G outbreak_sim) \<and> set (nodes (G outbreak_sim)) \<subseteq> dom (state outbreak_sim) \<and>
   N outbreak_sim = length (nodes (G outbreak_sim))"
  unfolding outbreak_sim_def infect_node_def new_sim_def copy_fork5
  by (auto simp: fork5_def closed_graph_def has_node_def nodes_def)

lemma stage_mono: "allowed_transition a b \<Longrightarrow> stage a \<le> stage b"
  by (auto simp: allowed_transition_def)

subsection \<open>Steps without chance\<close>

lemma draw_nonneg: "env_ok e \<Longrightarrow> 0 \<le> fst (random_random e g)"
  by (simp add: env_ok_def)

lemma draw_less_one: "env_ok e \<Longrightarrow> fst (random_random e g) < 1"
  by (simp add: env_ok_def)

lemma rule1_loop_never:
  assumes "env_ok e"
  shows "rule1_loop e st 0 es g = Inr (r, g') \<Longrightarrow> r = []"
proof (induction es arbitrary: g r g')
  case Nil
  then show ?case by simp
next
  case (Cons uv es)
  have "\<not> fst (random_random e g) < 0" using draw_nonneg[OF assms, of g] by simp
  with Cons show ?case
    by (auto split: sum.splits if_splits)
qed

lemma scan_w_never:
  assumes "env_ok e"
  shows "scan_w e st gr 0 u ws g = Inr (r, g') \<Longrightarrow> r = []"
proof (induction ws arbitrary: g r g')
  case Nil
  then show ?case by simp
next
  case (Cons w ws)
  have "\<not> fst (random_random e g) < 0" using draw_nonneg[OF assms, of g] by simp
  with Cons show ?case
    by (auto split: sum.splits if_splits)
qed

lemma scan_v_never:
  assumes "env_ok e"
  shows "scan_v e st gr 0 u vs g = Inr (r, g') \<Longrightarrow> r = []"
proof (induction vs arbitrary: g r g')
  case Nil
  then show ?case by simp
next
  case (Cons v vs)
  then show ?case
    by (auto split: sum.splits if_splits dest: scan_w_never[OF assms])
qed

lemma scan_u_never:
  assumes "env_ok e"
  shows "scan_u e st gr 0 us g = Inr (r, g') \<Longrightarrow> r = []"
proof (induction us arbitrary: g r g')
  case Nil
  then show ?case by simp
next
  case (Cons u us)
  then show ?case
    by (auto split: sum.splits if_splits dest: scan_v_never[OF assms])
qed

lemma edge_set_iter_Nil: "env_ok e \<Longrightarrow> edge_set_iter e [] = []"
  using edge_set_iter_set[of e "[]"] by simp

lemma set_iter_Nil: "env_ok e \<Longrightarrow> set_iter e [] = []"
  using set_iter_set[of e "[]"] by simp

lemma adaptive_step_static:
  assumes ok: "env_ok e" and a: "alpha s = 0" and m: "mu s = 0"
    and r: "adaptive_step e g s = Inr (c, s2, g2)"
  shows "s2 = s"
proof -
  from adaptive_step_full_of[OF r] obtain res where
    full: "adaptive_step_full e g s = Inr res" and s2: "s2 = sim_after res" by blast
  from full show ?thesis
  proof (cases rule: adaptive_step_full_cases)
    case (1 g1 sus from_cut ntc g2)
    have rm: "edges_to_remove res = []"
      using rule1_loop_never[OF ok] 1(1) a by simp
    have ad: "edges_to_add res = []"
      using scan_u_never[OF ok] 1(6) m by simp
    show ?thesis
      by (simp add: s2 1(7) 1(2) rm ad edge_set_iter_Nil[OF ok] remove_edges_from_def
          add_edges_from_def)
  qed
qed

lemma recovery_pass_never:
  assumes "env_ok e"
  shows "recovery_pass e st 0 ns g = Inr (r, g') \<Longrightarrow> r = []"
proof (induction ns arbitrary: g r g')
  case Nil
  then show ?case by simp
next
  case (Cons n ns)
  have "\<not> fst (random_random e g) < 0" using draw_nonneg[OF assms, of g] by simp
  with Cons show ?case
    by (auto split: sum.splits if_splits)
qed

lemma neighbors_adj_of: "neighbors gr n = Inr nbrs \<Longrightarrow> adj_of gr n = nbrs"
  by (auto simp: neighbors_def adj_of_def split: option.splits)

lemma infection_pass_certain:
  assumes "env_ok e"
  shows "infection_pass e st gr 1 ns g = Inr (r, g') \<Longrightarrow>
         r = filter (\<lambda>n. st n = Some SUSCEPTIBLE \<and>
                          list_ex (\<lambda>v. st v = Some INFECTED) (adj_of gr n)) ns"
proof (induction ns arbitrary: g r g')
  case Nil
  then show ?case by simp
next
  case (Cons n ns)
  have d: "fst (random_random e g) < 1" using draw_less_one[OF assms] .
  show ?case
  proof (cases "st n = Some SUSCEPTIBLE")
    case False
    with Cons show ?thesis
      by (auto simp: state_at_Inr split: sum.splits if_splits)
  next
    case True
    then have sn: "state_at st n = Inr SUSCEPTIBLE" by (simp add: state_at_Inr)
    from Cons.prems obtain nbrs where nb: "neighbors gr n = Inr nbrs"
      by (auto simp: sn split: sum.splits)
    from Cons.prems obtain inf where sel: "select_state st INFECTED nbrs = Inr inf"
      by (auto simp: sn nb split: sum.splits)
    have inf: "inf = filter (\<lambda>v. st v = Some INFECTED) nbrs"
      using select_state_Inr[OF sel] .
    have ex: "list_ex (\<lambda>v. st v = Some INFECTED) (adj_of gr n) \<longleftrightarrow> length inf > 0"
      by (auto simp: neighbors_adj_of[OF nb] inf list_ex_iff filter_empty_conv)
    show ?thesis
    proof (cases "length inf > 0")
      case True
      then have p: "(1::real) - (1 - 1) ^ length inf = 1" by simp
      from Cons.prems True obtain r' where
        rec: "infection_pass e st gr 1 ns (snd (random_random e g)) = Inr (r', g')" and
        r: "r = n # r'"
        using d by (auto simp: sn nb sel power_0_left split: sum.splits)
      from Cons.IH[OF rec] show ?thesis using r ex True \<open>st n = Some SUSCEPTIBLE\<close> by simp
    next
      case False
      from Cons.prems False have rec: "infection_pass e st gr 1 ns g = Inr (r, g')"
        by (simp add: sn nb sel)
      from Cons.IH[OF rec] show ?thesis using ex False by simp
    qed
  qed
qed

lemma epidemic_step_certain:
  assumes ok: "env_ok e" and b: "beta s = 1" and ga: "gamma s = 0"
    and r: "epidemic_step e g s = Inr (c, s3, g3)"
  shows "s3 = s\<lparr>state := spread (G s) (state s)\<rparr>"
  using r
proof (cases rule: epidemic_step_cases)
  case (1 to_infect to_recover g1)
  have tr: "to_recover = []" using recovery_pass_never[OF ok] 1(2) ga by simp
  have ti: "to_infect = filter (\<lambda>n. state s n = Some SUSCEPTIBLE \<and>
                          list_ex (\<lambda>v. state s v = Some INFECTED) (adj_of (G s) n)) (nodes (G s))"
    using infection_pass_certain[OF ok] 1(1) b by simp
  have "set_all RECOVERED (set_iter e to_recover)
          (set_all INFECTED (set_iter e to_infect) (state s)) = spread (G s) (state s)"
    by (rule ext) (auto simp: set_all_apply set_iter_set[OF ok] tr ti spread_def)
  then show ?thesis by (simp add: 1(3))
qed

subsection \<open>The ring lattice\<close>

lemma nodes_ring: "nodes (ring_lattice n) = [0..<n]"
  by (simp add: ring_lattice_def nodes_def comp_def map_idI)

lemma nodes_ring_copy: "nodes (copy_graph (ring_lattice 20)) = [0..<20]"
  by code_simp

lemma closed_ring: "closed_graph (copy_graph (ring_lattice 20))"
  by code_simp

lemma front_full: "5 \<le> k \<Longrightarrow> front k = front 5"
  by (rule ext) (auto simp: front_def)

lemma wave_full: "5 \<le> k \<Longrightarrow> wave k = 20"
  by (simp add: wave_def)

lemma spread_front_early:
  "list_all (\<lambda>k. list_all (\<lambda>n. spread (copy_graph (ring_lattice 20)) (front k) n = front (Suc k) n)
                      [0..<20])
     [0..<5]"
  by code_simp

lemma spread_outside:
  "\<not> n < 20 \<Longrightarrow> spread (copy_graph (ring_lattice 20)) (front k) n = front (Suc k) n"
  by (simp add: spread_def front_def nodes_ring_copy)

lemma spread_front: "spread (copy_graph (ring_lattice 20)) (front k) = front (Suc k)"
proof (rule ext)
  fix n
  show "spread (copy_graph (ring_lattice 20)) (front k) n = front (Suc k) n"
  proof (cases "n < 20")
    case False
    then show ?thesis by (rule spread_outside)
  next
    case n: True
    show ?thesis
    proof (cases "k < 5")
      case True
      then have "k \<in> set [0..<5]" by simp
      moreover have "n \<in> set [0..<20]" using n by simp
      ultimately show ?thesis
        using spread_front_early unfolding list_all_iff by blast
    next
      case False
      then have "front k n = Some INFECTED" "front (Suc k) n = Some INFECTED"
        using n by (auto simp: front_def)
      then show ?thesis by (simp add: spread_def)
    qed
  qed
qed

lemma count_front_early:
  "list_all (\<lambda>k. count_loop (front k) [0..<20] (0, 0, 0) = Inr (20 - wave k, wave k, 0)) [0..<6]"
  by code_simp

lemma count_front: "count_loop (front k) [0..<20] (0, 0, 0) = Inr (20 - wave k, wave k, 0)"
proof (cases "k < 6")
  case True
  then have "k \<in> set [0..<6]" by simp
  then show ?thesis using count_front_early unfolding list_all_iff by blast
next
  case False
  then have k: "5 \<le> k" by simp
  have "(5::nat) \<in> set [0..<6]" by simp
  then have "count_loop (front 5) [0..<20] (0, 0, 0) = Inr (20 - wave 5, wave 5, 0)"
    using count_front_early unfolding list_all_iff by blast
  then have "count_loop (front 5) [0..<20] (0, 0, 0) = Inr (0, 20, 0)"
    by (simp add: wave_def)
  then show ?thesis by (simp only: front_full[OF k] wave_full[OF k]) simp
qed

lemma ring_sim_fields:
  "G ring_sim = copy_graph (ring_lattice 20) \<and> state ring_sim = front 0 \<and>
   beta ring_sim = 1 \<and> gamma ring_sim = 0 \<and> alpha ring_sim = 0 \<and> mu ring_sim = 0 \<and>
   N ring_sim = 20"
  by (auto simp: ring_sim_def infect_node_def new_sim_def nodes_ring_copy nodes_ring front_def)

lemma wave_pos: "wave t \<noteq> 0"
  by (simp add: wave_def)

lemma count_states_ring:
  "G s = copy_graph (ring_lattice 20) \<Longrightarrow> state s = front t \<Longrightarrow>
   count_states s = Inr (20 - wave t, wave t, 0)"
  by (simp add: count_states_def nodes_ring_copy count_front)

lemma ring_run_loop:
  assumes ok: "env_ok e" and res: "run_loop e m tn t g s obs = Inr res"
  shows "G s = copy_graph (ring_lattice 20) \<Longrightarrow> state s = front t \<Longrightarrow> beta s = 1 \<Longrightarrow>
         gamma s = 0 \<Longrightarrow>
         alpha s = 0 \<Longrightarrow> mu s = 0 \<Longrightarrow>
         ts_S (time_series (fst res)) = ts_S (time_series s) @ map (\<lambda>k. 20 - wave k) [t..<nat m] \<and>
         ts_I (time_series (fst res)) = ts_I (time_series s) @ map wave [t..<nat m] \<and>
         ts_R (time_series (fst res)) = ts_R (time_series s) @ map (\<lambda>k. 0) [t..<nat m] \<and>
         ts_t (time_series (fst res)) = ts_t (time_series s) @ [t..<nat m]"
  using res
proof (induction rule: run_loop_success_induct)
  case (finished t g s obs)
  then have "nat m \<le> t" by simp
  then show ?case by simp
next
  case (stopped t g s obs s1)
  from stopped(2) obtain c where "count_states s = Inr c" "0 = fst (snd c)"
    by (cases rule: record_step_cases)
  then show ?case
    using count_states_ring[OF stopped(3,4)] wave_pos[of t] by auto
next
  case (stepped t g s obs i s1 ca s2 g2 ir s3 g3 res)
  from stepped(2) obtain c nm where c: "count_states s = Inr c"
    and s1: "s1 = s\<lparr>time_series := record_counts c t (time_series s), network_metrics := nm\<rparr>"
    by (cases rule: record_step_cases)
  have cv: "c = (20 - wave t, wave t, 0)"
    using c count_states_ring[OF stepped(8,9)] by simp
  have s2: "s2 = s1"
    using adaptive_step_static[OF ok _ _ stepped(4)] stepped(12,13) by (simp add: s1)
  have s3: "s3 = s2\<lparr>state := spread (G s2) (state s2)\<rparr>"
    using epidemic_step_certain[OF ok _ _ stepped(5)] stepped(10,11) by (simp add: s2 s1)
  have st3: "state s3 = front (t + 1)"
    using stepped(8,9) by (simp add: s3 s2 s1 spread_front)
  have f3: "G s3 = copy_graph (ring_lattice 20)" "beta s3 = 1" "gamma s3 = 0" "alpha s3 = 0" "mu s3 = 0"
    using stepped(8,10,11,12,13) by (simp_all add: s3 s2 s1)
  have ts3: "time_series s3 = record_counts c t (time_series s)"
    by (simp add: s3 s2 s1)
  have lt: "t < nat m" using stepped(1) by simp
  have up: "[t..<nat m] = t # [t + 1..<nat m]"
    using lt by (simp add: upt_conv_Cons)
  from stepped(7)[OF f3(1) st3 f3(2-5)]
  show ?case
    by (simp add: ts3 record_counts_def cv up)
qed

subsection \<open>Rule 2 on concrete graphs\<close>

text \<open>
  C1. The claim: in Rule 2 at most one edge is proposed for a seed node \<open>u\<close> in a step.
  The \<^verbatim>\<open>break\<close> leaves the loop over \<open>w\<close> only, so the loop over the neighbours
  \<open>v\<close> of \<open>u\<close> goes on. On the tree \<open>3 - 1 - 0 - 2 - 4\<close> with every node of the tree
  susceptible and \<open>mu = 1\<close>, the seed \<open>0\<close> gets two proposed edges in one step, one
  through each of its neighbours.
\<close>

theorem rule2_two_edges_for_one_seed:
  "(case adaptive_step_full demo_env 0 fork5_sim of
      Inl err \<Rightarrow> []
    | Inr r \<Rightarrow> filter (\<lambda>uw. fst uw = 0) (edges_to_add r)) = [(0, 3), (0, 4)]"
  by code_simp

text \<open>
  C7. The claim: the proposed edges are deduplicated as unordered pairs, and the count
  returned is the number of edges added to the graph. \<^verbatim>\<open>list(set(edges_to_add))\<close>
  compares ordered tuples. On the path \<open>0 - 1 - 2\<close> with \<open>mu = 1\<close> the seeds \<open>0\<close> and
  \<open>2\<close> propose \<open>(0, 2)\<close> and \<open>(2, 0)\<close>; both survive, the step returns 2 as
  \<^verbatim>\<open>edges_added\<close>, and the graph gains one edge.
\<close>

theorem edges_added_counts_both_orientations:
  "(case adaptive_step_full demo_env 0 (path3_sim (1/2) (1/2) 0 1) of
      Inl err \<Rightarrow> None
    | Inr r \<Rightarrow>
        Some (edges_to_add r, edges_added r,
              number_of_edges (G (sim_after r)) - number_of_edges path3))
   = Some ([(0, 2), (2, 0)], 2, 1)"
  by code_simp

subsection \<open>Construction\<close>

lemma new_sim_inv:
  assumes "closed_graph graph"
  shows "closed_graph (G (new_sim graph b ga a m)) \<and>
         set (nodes (G (new_sim graph b ga a m))) \<subseteq> dom (state (new_sim graph b ga a m)) \<and>
         N (new_sim graph b ga a m) = length (nodes (G (new_sim graph b ga a m)))"
  using copy_graph_nodes_closed[OF assms] by (auto simp: new_sim_def)

lemma init_returns:
  "fst (init e graph b ga a m seed g) = Inr s \<Longrightarrow> s = new_sim graph b ga a m"
  by (auto simp: init_def split: option.splits if_splits)

text \<open>
  C6, as stated: parameters outside \<open>[0, 1]\<close> are reported as an error at construction.
  The constructor has no check of the parameters. With \<open>beta = 2\<close>, \<open>gamma = -1\<close>,
  \<open>alpha = 3\<close>, \<open>mu = 7\<close> (and no seed) it returns a simulation, not an error; the
  simulation holds these values; and a run of it returns normally.
\<close>

theorem init_accepts_out_of_range:
  "fst (init demo_env path3 2 (-1) 3 7 None 0) = Inr (new_sim path3 2 (-1) 3 7) \<and>
   beta (new_sim path3 2 (-1) 3 7) = 2 \<and>
   gamma (new_sim path3 2 (-1) 3 7) = -1 \<and>
   alpha (new_sim path3 2 (-1) 3 7) = 3 \<and>
   mu (new_sim path3 2 (-1) 3 7) = 7 \<and>
   \<not> isl (run demo_env 0 (path3_sim 2 (-1) 3 7) 5 True)"
proof -
  have "\<not> isl (run demo_env 0 (path3_sim 2 (-1) 3 7) 5 True)" by code_simp
  then show ?thesis by (simp add: init_def new_sim_def)
qed

text \<open>
  C6, amended: construction performs no validation of the four parameters. Whether the
  constructor returns depends on the seed alone: it returns exactly when no seed is given
  or the seed is an integer with \<open>0 \<le> seed < 2^32\<close>, and otherwise it raises the
  \<^verbatim>\<open>ValueError\<close> of \<^verbatim>\<open>np.random.seed\<close>. Whenever it returns, for every
  parameter vector, inside \<open>[0, 1]\<close> or not, the simulation holds the four parameters
  exactly as given: nothing is clamped, nothing is rejected.
\<close>

theorem init_stores_parameters:
  "fst (init e graph b ga a m seed g) =
     (if seed = None \<or> (\<exists>sd. seed = Some sd \<and> 0 \<le> sd \<and> sd < 2 ^ 32)
      then Inr (new_sim graph b ga a m) else Inl ValueError) \<and>
   beta (new_sim graph b ga a m) = b \<and>
   gamma (new_sim graph b ga a m) = ga \<and>
   alpha (new_sim graph b ga a m) = a \<and>
   mu (new_sim graph b ga a m) = m"
  by (cases seed) (auto simp: init_def new_sim_def)

subsection \<open>Determinism\<close>

text \<open>
  C5, as stated: two simulations constructed with the same graph, parameters and seed,
  and the same patient zero, record the same time series. The seed sets the process-wide
  generator at construction only, and a run draws from that generator as it stands when
  the run starts. Construct two simulations on the tree \<open>3 - 1 - 0 - 2 - 4\<close> with
  seed 7 and the same parameters, infect node \<open>0\<close> in both, run the first and then the
  second: the first records six entries, the second, which starts from the generator state
  the first run left, records two.
\<close>

theorem same_seed_runs_differ:
  "construct_both_then_run demo_env 0 fork5 (3/4) (1/2) (1/2) (1/2) (Some 7) 0 20 False =
     Inr (\<lparr>ts_S = [5, 4, 3, 3, 3, 3], ts_I = [1, 2, 3, 2, 1, 0],
           ts_R = [0, 0, 0, 1, 2, 3], ts_t = [0, 1, 2, 3, 4, 5]\<rparr>,
          \<lparr>ts_S = [5, 5], ts_I = [1, 0], ts_R = [0, 1], ts_t = [0, 1]\<rparr>)"
  by code_simp

text \<open>
  C5, amended: a simulation that is constructed with a seed (not \<^verbatim>\<open>None\<close>), given its
  patient zero (drawn by \<^verbatim>\<open>infect_random_node\<close>, or given as a list of nodes) and run
  at once, with no other use of the process-wide generator between its construction and
  the end of its run, has a result, and so a time series, that is fixed by the graph, the
  parameters, the seed and the patient-zero seeding: it is the same whatever state the
  process-wide generator was in before the construction. (With a seed that
  \<^verbatim>\<open>np.random.seed\<close> refuses, the result is the same \<^verbatim>\<open>ValueError\<close>.)
\<close>

theorem seeded_runs_identical:
  "simulate e g1 graph b ga a m (Some sd) max_steps track_network
     = simulate e g2 graph b ga a m (Some sd) max_steps track_network \<and>
   simulate_nodes e g1 graph b ga a m (Some sd) pz max_steps track_network
     = simulate_nodes e g2 graph b ga a m (Some sd) pz max_steps track_network"
  by (simp add: simulate_def simulate_nodes_def init_def)

subsection \<open>Triadic closure\<close>

text \<open>
  C4. Every edge added by Rule 2 in a step (an adjacency \<open>u - w\<close> of the graph after the
  step that the graph after Rule 1's removals did not have) was recorded by the scan as
  \<open>(u, w)\<close> or \<open>(w, u)\<close>, and: (a) \<open>u\<close> and \<open>w\<close> were both susceptible at the start of
  the step; (b) \<open>u\<close> and \<open>w\<close> are distinct and were not adjacent in the graph at the
  start of the step either; (c) some node \<open>v\<close>, susceptible at the start of the step, was
  adjacent to both \<open>u\<close> and \<open>w\<close> in the graph at the start of the step.
\<close>

theorem triadic_closure_correct:
  assumes ok: "env_ok e" and sym: "symmetric_graph (G s)"
    and r: "adaptive_step_full e g s = Inr r"
    and after: "has_edge (G (sim_after r)) u w"
    and before: "\<not> has_edge (graph_after_cut r) u w"
  shows "((u, w) \<in> set (edges_to_add r) \<or> (w, u) \<in> set (edges_to_add r)) \<and>
         state s u = Some SUSCEPTIBLE \<and> state s w = Some SUSCEPTIBLE \<and>
         u \<noteq> w \<and> \<not> has_edge (G s) u w \<and> \<not> has_edge (G s) w u \<and>
         (\<exists>v. state s v = Some SUSCEPTIBLE \<and> has_edge (G s) u v \<and> has_edge (G s) w v)"
proof -
  have "G (sim_after r) = add_edges_from (graph_after_cut r) (edge_set_iter e (edges_to_add r))"
    using r by (cases rule: adaptive_step_full_cases) simp
  with after before
    has_edge_add_edges_from[of "graph_after_cut r" "edge_set_iter e (edges_to_add r)" u w]
  have p: "(u, w) \<in> set (edges_to_add r) \<or> (w, u) \<in> set (edges_to_add r)"
    by (simp add: edge_set_iter_set[OF ok])
  from p proposed_edge_properties[OF ok sym r, of u w] proposed_edge_properties[OF ok sym r, of w u]
  show ?thesis by blast
qed

theorem triadic_closure_correct_witness:
  "env_ok demo_env \<and> symmetric_graph (G (path3_sim (1/2) (1/2) 0 1)) \<and>
   (case adaptive_step_full demo_env 0 (path3_sim (1/2) (1/2) 0 1) of
      Inl err \<Rightarrow> False
    | Inr r \<Rightarrow>
        has_edge (G (sim_after r)) 0 2 \<and> \<not> has_edge (graph_after_cut r) 0 2 \<and>
        ((0, 2) \<in> set (edges_to_add r) \<or> (2, 0) \<in> set (edges_to_add r)) \<and>
        state (path3_sim (1/2) (1/2) 0 1) 0 = Some SUSCEPTIBLE \<and>
        state (path3_sim (1/2) (1/2) 0 1) 2 = Some SUSCEPTIBLE \<and>
        (0::nat) \<noteq> 2 \<and> \<not> has_edge (G (path3_sim (1/2) (1/2) 0 1)) 0 2 \<and>
        \<not> has_edge (G (path3_sim (1/2) (1/2) 0 1)) 2 0 \<and>
        (\<exists>v. state (path3_sim (1/2) (1/2) 0 1) v = Some SUSCEPTIBLE \<and>
             has_edge (G (path3_sim (1/2) (1/2) 0 1)) 0 v \<and>
             has_edge (G (path3_sim (1/2) (1/2) 0 1)) 2 v))"
proof -
  let ?s = "path3_sim (1/2) (1/2) 0 1"
  have sym: "symmetric_graph (G ?s)" by code_simp
  have "case adaptive_step_full demo_env 0 ?s of
          Inl err \<Rightarrow> False
        | Inr r \<Rightarrow> has_edge (G (sim_after r)) 0 2 \<and> \<not> has_edge (graph_after_cut r) 0 2"
    by code_simp
  then obtain r where r: "adaptive_step_full demo_env 0 ?s = Inr r"
    and a: "has_edge (G (sim_after r)) 0 2" and b: "\<not> has_edge (graph_after_cut r) 0 2"
    by (auto split: sum.splits)
  from triadic_closure_correct[OF demo_env_ok sym r a b] demo_env_ok sym a b
  show ?thesis by (simp add: r)
qed

subsection \<open>Metrics tracking\<close>

text \<open>
  C10. For any environment, generator state, simulation and step cap, the run with
  \<^verbatim>\<open>track_network=True\<close> and the run with \<^verbatim>\<open>track_network=False\<close> either raise
  the same error or return the same time series, the same final graph, the same
  compartments and the same generator state: they differ in the recorded metrics only.
\<close>

theorem metrics_tracking_transparent:
  "epidemic_outcome (run e g s max_steps True) = epidemic_outcome (run e g s max_steps False)"
proof -
  let ?s0 = "s\<lparr>time_series := empty_time_series, network_metrics := empty_network_metrics\<rparr>"
  have "observed_outcome (run_loop e max_steps True 0 g (?s0\<lparr>network_metrics := empty_network_metrics\<rparr>) [])
      = observed_outcome (run_loop e max_steps False 0 g ?s0 [])"
    by (rule run_loop_metrics)
  then have "observed_outcome (run_observed e g s max_steps True)
      = observed_outcome (run_observed e g s max_steps False)"
    by (simp add: run_observed_def)
  then show ?thesis
    by (auto simp: run_def epidemic_outcome_def observed_outcome_def split: sum.splits)
qed

subsection \<open>The empty graph\<close>

text \<open>
  C9. A simulation constructed on the graph without nodes runs without failure, with or
  without metrics tracking, whatever the parameters: it returns the simulation it was
  given (so the graph and the compartments are untouched) and the generator state it was
  given (so there was no draw, hence no rewiring or epidemic step). With a step cap of at
  least 1 it records the single entry \<open>t = 0\<close>, \<open>S = I = R = 0\<close> and, when tracking, one
  metrics entry of zeros; with a step cap of 0 or less the loop is not entered and
  nothing is recorded.
\<close>

theorem empty_graph_run:
  "run e g (new_sim [] b ga a m) max_steps track_network =
     Inr ((new_sim [] b ga a m)
            \<lparr>time_series :=
               (if 0 < max_steps then \<lparr>ts_S = [0], ts_I = [0], ts_R = [0], ts_t = [0]\<rparr>
                else empty_time_series),
             network_metrics :=
               (if 0 < max_steps \<and> track_network
                then \<lparr>avg_degree = [0], clustering = [0], num_edges = [0], num_components = [0]\<rparr>
                else empty_network_metrics)\<rparr>, g)"
proof -
  have "new_sim [] b ga a m = (new_sim [] b ga a m)\<lparr>G := []\<rparr>"
    by (simp add: new_sim_def copy_graph_def add_edges_from_def)
  then show ?thesis
    using run_empty_graph[of e g "new_sim [] b ga a m" max_steps track_network]
    by simp
qed

subsection \<open>State conservation\<close>

text \<open>
  C2. For a simulation whose graph has its neighbours among its nodes, whose dictionary
  has a state for every node, and whose \<open>N\<close> is the node count (as the constructor
  sets it), a run returns, and in the time series it returns the four lists have one
  length and every entry, the initial one included, has \<open>S + I + R = N\<close>.
\<close>

theorem state_conservation:
  assumes "env_ok e" and "closed_graph (G s)" and "set (nodes (G s)) \<subseteq> dom (state s)"
    and "N s = length (nodes (G s))"
  shows "\<exists>s' g'. run e g s max_steps track_network = Inr (s', g') \<and>
           conserved (N s) (time_series s') \<and> N s' = N s"
proof -
  let ?s0 = "s\<lparr>time_series := empty_time_series, network_metrics := empty_network_metrics\<rparr>"
  have c0: "closed_graph (G ?s0)" and d0: "set (nodes (G ?s0)) \<subseteq> dom (state ?s0)"
    and n0: "N ?s0 = length (nodes (G ?s0))" and t0: "conserved (N ?s0) (time_series ?s0)"
    using assms(2-4) by (simp_all add: conserved_empty)
  obtain res where res: "run_loop e max_steps track_network 0 g ?s0 [] = Inr res"
    using run_loop_total[OF assms(1) c0 d0] by blast
  from run_loop_conserved[OF assms(1) res c0 n0 t0]
  have "conserved (N s) (time_series (fst res)) \<and> N (fst res) = N s" by simp
  then show ?thesis
    using res by (cases res) (simp add: run_def run_observed_def)
qed

theorem state_conservation_witness:
  "env_ok demo_env \<and> closed_graph (G outbreak_sim) \<and>
   set (nodes (G outbreak_sim)) \<subseteq> dom (state outbreak_sim) \<and>
   N outbreak_sim = length (nodes (G outbreak_sim)) \<and>
   (\<exists>s' g'. run demo_env 7 outbreak_sim 20 True = Inr (s', g') \<and>
      conserved (N outbreak_sim) (time_series s') \<and> N s' = N outbreak_sim) \<and>
   (case run demo_env 7 outbreak_sim 20 True of
      Inl err \<Rightarrow> []
    | Inr (s', g') \<Rightarrow> zip (ts_S (time_series s')) (zip (ts_I (time_series s')) (ts_R (time_series s'))))
     = [(5, 1, 0), (4, 2, 0), (3, 3, 0), (3, 2, 1), (3, 1, 2), (3, 0, 3)] \<and>
   N outbreak_sim = 6"
proof -
  have h: "closed_graph (G outbreak_sim)" "set (nodes (G outbreak_sim)) \<subseteq> dom (state outbreak_sim)"
    "N outbreak_sim = length (nodes (G outbreak_sim))"
    using outbreak_sim_inv by simp_all
  have ev: "(case run demo_env 7 outbreak_sim 20 True of
      Inl err \<Rightarrow> []
    | Inr (s', g') \<Rightarrow> zip (ts_S (time_series s')) (zip (ts_I (time_series s')) (ts_R (time_series s'))))
     = [(5, 1, 0), (4, 2, 0), (3, 3, 0), (3, 2, 1), (3, 1, 2), (3, 0, 3)]"
    by code_simp
  have n: "N outbreak_sim = 6" by code_simp
  from state_conservation[OF demo_env_ok h, of 7 20 True] demo_env_ok h ev n
  show ?thesis by blast
qed

subsection \<open>Transition monotonicity\<close>

text \<open>
  C3. In a run that returns, take the compartment dictionaries observed at each recorded
  entry, followed by the dictionary the run leaves. For every node \<open>n\<close>, between two
  consecutive dictionaries the state of \<open>n\<close> is unchanged or goes from SUSCEPTIBLE to
  INFECTED or from INFECTED to RECOVERED, and over the whole sequence its position in the
  order \<open>S\<close>, \<open>I\<close>, \<open>R\<close> never decreases: the sequence is a prefix of \<open>S*, I*, R*\<close>,
  and RECOVERED is terminal.
\<close>

theorem transition_monotonicity:
  assumes "env_ok e" and "run_observed e g s max_steps track_network = Inr (s', g', obs)"
  shows "successively (\<lambda>a b. allowed_transition (a n) (b n)) (obs @ [state s']) \<and>
         sorted (map (\<lambda>st. stage (st n)) (obs @ [state s']))"
proof -
  let ?s0 = "s\<lparr>time_series := empty_time_series, network_metrics := empty_network_metrics\<rparr>"
  have res: "run_loop e max_steps track_network 0 g ?s0 [] = Inr (s', g', obs)"
    using assms(2) by (simp add: run_observed_def)
  from run_loop_trace[OF assms(1) res] obtain tr where
    eq: "obs @ [state s'] = state ?s0 # tr" and
    su: "successively (\<lambda>a b. \<forall>n. allowed_transition (a n) (b n)) (state ?s0 # tr)"
    by auto
  have s1: "successively (\<lambda>a b. allowed_transition (a n) (b n)) (obs @ [state s'])"
    unfolding eq by (rule successively_mono[OF su]) blast
  then have "successively (\<lambda>a b. stage (a n) \<le> stage (b n)) (obs @ [state s'])"
    by (rule successively_mono) (simp add: stage_mono)
  then have "successively (\<le>) (map (\<lambda>st. stage (st n)) (obs @ [state s']))"
    by (simp only: successively_map)
  then have "sorted (map (\<lambda>st. stage (st n)) (obs @ [state s']))"
    by (simp add: successively_conv_sorted_wrt[OF transp_on_le])
  with s1 show ?thesis by blast
qed

theorem transition_monotonicity_witness:
  "env_ok demo_env \<and>
   (case run_observed demo_env 7 outbreak_sim 20 True of
      Inl err \<Rightarrow> False
    | Inr (s', g', obs) \<Rightarrow>
        successively (\<lambda>a b. allowed_transition (a 1) (b 1)) (obs @ [state s']) \<and>
        sorted (map (\<lambda>st. stage (st 1)) (obs @ [state s'])) \<and>
        map (\<lambda>st. st 1) (obs @ [state s']) =
          [Some SUSCEPTIBLE, Some INFECTED, Some INFECTED, Some INFECTED,
           Some RECOVERED, Some RECOVERED, Some RECOVERED])"
proof -
  have "(case run_observed demo_env 7 outbreak_sim 20 True of
      Inl err \<Rightarrow> False
    | Inr (s', g', obs) \<Rightarrow>
        map (\<lambda>st. st 1) (obs @ [state s']) =
          [Some SUSCEPTIBLE, Some INFECTED, Some INFECTED, Some INFECTED,
           Some RECOVERED, Some RECOVERED, Some RECOVERED])"
    by code_simp
  then obtain s' g' obs where r: "run_observed demo_env 7 outbreak_sim 20 True = Inr (s', g', obs)"
    and tr: "map (\<lambda>st. st 1) (obs @ [state s']) =
          [Some SUSCEPTIBLE, Some INFECTED, Some INFECTED, Some INFECTED,
           Some RECOVERED, Some RECOVERED, Some RECOVERED]"
    by (auto split: sum.splits)
  from transition_monotonicity[OF demo_env_ok r, of 1] demo_env_ok tr
  show ?thesis by (simp add: r)
qed

subsection \<open>The ring lattice scenario\<close>

text \<open>
  C8. On the ring lattice with 20 nodes and \<open>k = 4\<close>, with \<open>beta = 1\<close>,
  \<open>gamma = alpha = mu = 0\<close> and patient zero at node \<open>0\<close>, for every environment
  satisfying Python's guarantees, every generator state, and with or without
  metrics tracking: the run returns; it records exactly \<open>max_steps\<close> entries, so it is
  never stopped by \<open>I = 0\<close> but by the step cap; the entry of step \<open>t\<close> has
  \<open>I = min (4 t + 1) 20\<close>, \<open>S = 20 - I\<close> and \<open>R = 0\<close>, the same for every generator
  (no stochastic variance); \<open>I\<close> never decreases; and every node is infected from step
  5 on, hence at step 10.
\<close>

theorem ring_wavefront:
  assumes "env_ok e"
  shows "\<exists>s' g'. run e g ring_sim max_steps track_network = Inr (s', g') \<and>
           ts_t (time_series s') = [0..<nat max_steps] \<and>
           ts_I (time_series s') = map wave [0..<nat max_steps] \<and>
           ts_S (time_series s') = map (\<lambda>t. 20 - wave t) [0..<nat max_steps] \<and>
           ts_R (time_series s') = map (\<lambda>t. 0) [0..<nat max_steps] \<and>
           sorted (ts_I (time_series s')) \<and>
           drop 5 (ts_I (time_series s')) = replicate (nat max_steps - 5) 20"
proof -
  let ?s = "ring_sim"
  let ?s0 = "?s\<lparr>time_series := empty_time_series, network_metrics := empty_network_metrics\<rparr>"
  note f = ring_sim_fields
  have c0: "closed_graph (G ?s0)" using f closed_ring by simp
  have d0: "set (nodes (G ?s0)) \<subseteq> dom (state ?s0)"
    using f by (auto simp: nodes_ring_copy front_def dom_def)
  obtain res where res: "run_loop e max_steps track_network 0 g ?s0 [] = Inr res"
    using run_loop_total[OF assms c0 d0] by blast
  have "ts_S (time_series (fst res)) = ts_S (time_series ?s0) @ map (\<lambda>k. 20 - wave k) [0..<nat max_steps] \<and>
         ts_I (time_series (fst res)) = ts_I (time_series ?s0) @ map wave [0..<nat max_steps] \<and>
         ts_R (time_series (fst res)) = ts_R (time_series ?s0) @ map (\<lambda>k. 0) [0..<nat max_steps] \<and>
         ts_t (time_series (fst res)) = ts_t (time_series ?s0) @ [0..<nat max_steps]"
    using f by (intro ring_run_loop[OF assms res]) simp_all
  then have ts: "ts_S (time_series (fst res)) = map (\<lambda>k. 20 - wave k) [0..<nat max_steps]"
    "ts_I (time_series (fst res)) = map wave [0..<nat max_steps]"
    "ts_R (time_series (fst res)) = map (\<lambda>k. 0) [0..<nat max_steps]"
    "ts_t (time_series (fst res)) = [0..<nat max_steps]"
    by (simp_all add: empty_time_series_def)
  have mono: "sorted (map wave [0..<nat max_steps])"
    unfolding sorted_map
    by (rule sorted_wrt_mono_rel[OF _ sorted_wrt_upt]) (simp add: wave_def)
  have full: "drop 5 (map wave [0..<nat max_steps]) = replicate (nat max_steps - 5) 20"
    by (auto simp: drop_map list_eq_iff_nth_eq wave_def)
  show ?thesis
    using res ts mono full by (cases res) (simp add: run_def run_observed_def)
qed

theorem ring_wavefront_witness:
  "env_ok demo_env \<and>
   (\<exists>s' g'. run demo_env 3 ring_sim 12 False = Inr (s', g') \<and>
      ts_t (time_series s') = [0..<nat 12] \<and>
      ts_I (time_series s') = map wave [0..<nat 12] \<and>
      ts_S (time_series s') = map (\<lambda>t. 20 - wave t) [0..<nat 12] \<and>
      ts_R (time_series s') = map (\<lambda>t. 0) [0..<nat 12] \<and>
      sorted (ts_I (time_series s')) \<and>
      drop 5 (ts_I (time_series s')) = replicate (nat 12 - 5) 20) \<and>
   map wave [0..<nat 12] = [1, 5, 9, 13, 17, 20, 20, 20, 20, 20, 20, 20] \<and>
   (case run demo_env 3 ring_sim 3 False of
      Inl err \<Rightarrow> []
    | Inr (s', g') \<Rightarrow> ts_I (time_series s')) = [1, 5, 9]"
proof (intro conjI)
  show "(case run demo_env 3 ring_sim 3 False of
      Inl err \<Rightarrow> []
    | Inr (s', g') \<Rightarrow> ts_I (time_series s')) = [1, 5, 9]"
    by code_simp
  show "env_ok demo_env" by (rule demo_env_ok)
  show "\<exists>s' g'. run demo_env 3 ring_sim 12 False = Inr (s', g') \<and>
      ts_t (time_series s') = [0..<nat 12] \<and>
      ts_I (time_series s') = map wave [0..<nat 12] \<and>
      ts_S (time_series s') = map (\<lambda>t. 20 - wave t) [0..<nat 12] \<and>
      ts_R (time_series s') = map (\<lambda>t. 0) [0..<nat 12] \<and>
      sorted (ts_I (time_series s')) \<and>
      drop 5 (ts_I (time_series s')) = replicate (nat 12 - 5) 20"
    by (rule ring_wavefront[OF demo_env_ok])
  show "map wave [0..<nat 12] = [1, 5, 9, 13, 17, 20, 20, 20, 20, 20, 20, 20]"
    by code_simp
qed

end
